theory Spec2Isabelle
  imports Main "HOL-Library.Word"
begin

unbundle bit_operations_syntax

section \<open>Python values, exceptions and built-ins used by secplus.py\<close>

text \<open>
  Python integers are unbounded: they are modelled by \<open>int\<close>, with \<open>//\<close> and \<open>%\<close> as
  \<open>div\<close> and \<open>mod\<close> (both round towards minus infinity), \<open><<\<close> as \<open>push_bit\<close>,
  \<open>>>\<close> as \<open>drop_bit\<close>, and \<open>&\<close>, \<open>|\<close>, \<open>^\<close> as \<open>AND\<close>, \<open>OR\<close>, \<open>XOR\<close>.
  Lists of integers are \<open>int list\<close>. An exception is a value of type \<open>error\<close>; a
  \<open>ValueError\<close> carries the message of its \<open>raise\<close> statement, since the message is
  all that tells the failures of this module apart.
\<close>

datatype error = ValueError string | IndexError | KeyError | TypeError

definition and_then :: "error + 'a \<Rightarrow> ('a \<Rightarrow> error + 'b) \<Rightarrow> error + 'b" where
  "and_then r f = (case r of Inl e \<Rightarrow> Inl e | Inr x \<Rightarrow> f x)"

text \<open>\<open>xs[i]\<close> for an index \<open>i \<ge> 0\<close>: raises IndexError out of range.\<close>

definition getitem :: "'a list \<Rightarrow> nat \<Rightarrow> error + 'a" where
  "getitem xs i = (if i < length xs then Inr (xs ! i) else Inl IndexError)"

text \<open>\<open>for x in xs: st = body(st, x)\<close>, where the body may raise.\<close>

fun for_each :: "('s \<Rightarrow> 'a \<Rightarrow> error + 's) \<Rightarrow> 'a list \<Rightarrow> 's \<Rightarrow> error + 's" where
  "for_each body [] st = Inr st"
| "for_each body (x # xs) st = and_then (body st x) (for_each body xs)"

text \<open>\<open>[f(x) for x in xs]\<close>, where \<open>f\<close> may raise.\<close>

fun map_all :: "('a \<Rightarrow> error + 'b) \<Rightarrow> 'a list \<Rightarrow> error + 'b list" where
  "map_all f [] = Inr []"
| "map_all f (x # xs) = and_then (f x) (\<lambda>y. and_then (map_all f xs) (\<lambda>ys. Inr (y # ys)))"

subsection \<open>Formatting and parsing integers\<close>

definition bit_char :: "int \<Rightarrow> char" where
  "bit_char d = (if d = 0 then CHR ''0'' else CHR ''1'')"

text \<open>The binary digits of \<open>n \<ge> 0\<close>, most significant first (\<open>0\<close> is \<open>''0''\<close>).\<close>

function bin_digits :: "int \<Rightarrow> string" where
  "bin_digits n = (if n < 2 then [bit_char n] else bin_digits (n div 2) @ [bit_char (n mod 2)])"
  by pat_completeness auto
termination
  by (relation "measure nat") auto

declare bin_digits.simps [simp del]

definition zfill :: "nat \<Rightarrow> string \<Rightarrow> string" where
  "zfill width s = replicate (width - length s) (CHR ''0'') @ s"

text \<open>
  \<open>f"{n:0<width>b}"\<close>: binary digits, padded with zeros to \<open>width\<close> characters, never
  truncated; the sign of a negative number comes first and counts in the width.
\<close>

definition format_b :: "nat \<Rightarrow> int \<Rightarrow> string" where
  "format_b width n =
     (if n < 0 then CHR ''-'' # zfill (width - 1) (bin_digits (- n))
      else zfill width (bin_digits n))"

definition invalid_literal :: error where
  "invalid_literal = ValueError ''invalid literal for int()''"

definition is_bit_char :: "char \<Rightarrow> bool" where
  "is_bit_char c = (c = CHR ''0'' \<or> c = CHR ''1'')"

definition bin_value :: "string \<Rightarrow> error + int" where
  "bin_value s =
     (if s \<noteq> [] \<and> list_all is_bit_char s
      then Inr (foldl (\<lambda>v c. 2 * v + (if c = CHR ''1'' then 1 else 0)) 0 s)
      else Inl invalid_literal)"

text \<open>
  \<open>int(s, 2)\<close> on the strings this module builds, which hold decimal digits and minus
  signs only: an optional sign, then one or more of the digits 0 and 1. (The prefix
  \<open>0b\<close>, underscores and surrounding blanks, which \<open>int\<close> also accepts, cannot occur.)
\<close>

definition py_int2 :: "string \<Rightarrow> error + int" where
  "py_int2 s =
     (case s of
        [] \<Rightarrow> Inl invalid_literal
      | c # ds \<Rightarrow>
          if c = CHR ''-'' then and_then (bin_value ds) (\<lambda>v. Inr (- v))
          else if c = CHR ''+'' then bin_value ds
          else bin_value s)"

text \<open>\<open>str(n)\<close> for an integer: its decimal digits, after the sign of a negative number.\<close>

definition digit_char :: "int \<Rightarrow> char" where
  "digit_char d = ''0123456789'' ! nat d"

function dec_digits :: "int \<Rightarrow> string" where
  "dec_digits n = (if n < 10 then [digit_char n] else dec_digits (n div 10) @ [digit_char (n mod 10)])"
  by pat_completeness auto
termination
  by (relation "measure nat") auto

declare dec_digits.simps [simp del]

definition py_str :: "int \<Rightarrow> string" where
  "py_str n = (if n < 0 then CHR ''-'' # dec_digits (- n) else dec_digits n)"

text \<open>\<open>int(c)\<close> for a string of one character: a decimal digit, or a ValueError.\<close>

definition py_int_char :: "char \<Rightarrow> error + int" where
  "py_int_char c =
     (if c = CHR ''0'' then Inr 0 else if c = CHR ''1'' then Inr 1
      else if c = CHR ''2'' then Inr 2 else if c = CHR ''3'' then Inr 3
      else if c = CHR ''4'' then Inr 4 else if c = CHR ''5'' then Inr 5
      else if c = CHR ''6'' then Inr 6 else if c = CHR ''7'' then Inr 7
      else if c = CHR ''8'' then Inr 8 else if c = CHR ''9'' then Inr 9
      else Inl invalid_literal)"

text \<open>
  The argument of \<open>decode_wireline\<close> may be any object; \<open>isinstance(code, bytes)\<close>
  holds for \<open>PyBytes\<close> alone. A byte is an integer from 0 to 255.
\<close>

datatype py_object =
    PyBytes "8 word list"
  | PyByteArray "8 word list"
  | PyList "int list"
  | PyStr string
  | PyInt int
  | PyNone

text \<open>\<open>bytes(xs)\<close> for a list of integers: a ValueError unless each is in \<open>range(0, 256)\<close>.\<close>

definition py_bytes :: "int list \<Rightarrow> error + 8 word list" where
  "py_bytes xs =
     (if list_all (\<lambda>x. 0 \<le> x \<and> x < 256) xs then Inr (map word_of_int xs)
      else Inl (ValueError ''bytes must be in range(0, 256)''))"

text \<open>\<open>range(0, n, 2)\<close>.\<close>

definition range2 :: "nat \<Rightarrow> nat list" where
  "range2 n = map (\<lambda>k. 2 * k) [0..<(n + 1) div 2]"

text \<open>\<open>xs[a:b]\<close> for constants \<open>0 \<le> a \<le> b\<close>; \<open>xs[a:]\<close> is \<open>drop a xs\<close> and \<open>xs[:b]\<close> is \<open>take b xs\<close>.\<close>

definition slice :: "'a list \<Rightarrow> nat \<Rightarrow> nat \<Rightarrow> 'a list" where
  "slice xs a b = take (b - a) (drop a xs)"

text \<open>\<open>d[k]\<close> for a dict \<open>d\<close>: raises KeyError for a missing key.\<close>

definition lookup :: "('k \<rightharpoonup> 'v) \<Rightarrow> 'k \<Rightarrow> error + 'v" where
  "lookup d k = (case d k of None \<Rightarrow> Inl KeyError | Some v \<Rightarrow> Inr v)"

section \<open>Security+ (v1): decode and encode\<close>

text \<open>
  The body of the loop of \<open>decode\<close>, for one index \<open>i\<close> of \<open>range(0, 40, 2)\<close>. The state
  is \<open>(rolling, fixed, acc)\<close>; \<open>acc\<close> is assigned in the first iteration before it is read.
\<close>

definition decode_body :: "int list \<Rightarrow> int \<times> int \<times> int \<Rightarrow> nat \<Rightarrow> error + int \<times> int \<times> int" where
  "decode_body code st i =
     (case st of (rolling, fixed, acc) \<Rightarrow>
        let acc = (if i \<in> set [0, 20] then 0 else acc) in
        and_then (getitem code i) (\<lambda>digit.
          let rolling = rolling * 3 + digit;
              acc = acc + digit
          in and_then (getitem code (i + 1)) (\<lambda>c.
            let digit = (c - acc) mod 3;
                fixed = fixed * 3 + digit;
                acc = acc + digit
            in Inr (rolling, fixed, acc))))"

definition decode :: "int list \<Rightarrow> error + int \<times> int" where
  "decode code =
     and_then (for_each (decode_body code) (range2 40) (0, 0, 0))
       (\<lambda>(rolling, fixed, acc).
          and_then (py_int2 (rev (format_b 32 rolling))) (\<lambda>rolling. Inr (rolling, fixed)))"

text \<open>
  The first loop of \<open>encode\<close>, for one index \<open>i\<close> of \<open>range(19, -1, -1)\<close>; the state is
  \<open>(rolling_base3, fixed_base3, rolling, fixed)\<close>. Both lists have 20 entries and
  \<open>i < 20\<close>, so the assignments are in range.
\<close>

definition encode_digits :: "int list \<times> int list \<times> int \<times> int \<Rightarrow> nat \<Rightarrow> int list \<times> int list \<times> int \<times> int" where
  "encode_digits st i =
     (case st of (rolling_base3, fixed_base3, rolling, fixed) \<Rightarrow>
        (rolling_base3[i := rolling mod 3], fixed_base3[i := fixed mod 3],
         rolling div 3, fixed div 3))"

text \<open>The second loop of \<open>encode\<close>, for one index \<open>i\<close> of \<open>range(20)\<close>; the state is \<open>(acc, code)\<close>.\<close>

definition encode_pair :: "int list \<Rightarrow> int list \<Rightarrow> int \<times> int list \<Rightarrow> nat \<Rightarrow> int \<times> int list" where
  "encode_pair rolling_base3 fixed_base3 st i =
     (case st of (acc, code) \<Rightarrow>
        let acc = (if i \<in> set [0, 10] then 0 else acc);
            acc = acc + rolling_base3 ! i;
            code = code @ [rolling_base3 ! i];
            acc = acc + fixed_base3 ! i;
            code = code @ [acc mod 3]
        in (acc, code))"

definition encode :: "int \<Rightarrow> int \<Rightarrow> error + int list" where
  "encode rolling fixed =
     (if rolling \<ge> 2 ^ 32 then Inl (ValueError ''Rolling code must be less than 2^32'')
      else if fixed \<ge> 3 ^ 20 then Inl (ValueError ''Fixed code must be less than 3^20'')
      else and_then (py_int2 (rev (format_b 32 (rolling AND 0xfffffffe)))) (\<lambda>rolling.
        case foldl encode_digits (replicate 20 0, replicate 20 0, rolling, fixed) (rev [0..<20]) of
          (rolling_base3, fixed_base3, _, _) \<Rightarrow>
            Inr (snd (foldl (encode_pair rolling_base3 fixed_base3) (0, []) [0..<20]))))"

section \<open>Security+ 2.0: the scrambling tables\<close>

text \<open>
  The dicts \<open>_ORDER\<close> and \<open>_INVERT\<close>. Their values are tuples of three entries, kept
  as lists; they are only ever indexed by \<open>i\<close> in \<open>range(3)\<close>.
\<close>

definition ORDER :: "int \<rightharpoonup> nat list" where
  "ORDER = map_of
     [(0b0000, [0, 2, 1]),
      (0b0001, [2, 0, 1]),
      (0b0010, [0, 1, 2]),
      (0b0100, [1, 2, 0]),
      (0b0101, [1, 0, 2]),
      (0b0110, [2, 1, 0]),
      (0b1000, [1, 2, 0]),
      (0b1001, [2, 1, 0]),
      (0b1010, [0, 1, 2])]"

definition INVERT :: "int \<rightharpoonup> bool list" where
  "INVERT = map_of
     [(0b0000, [True, True, False]),
      (0b0001, [False, True, False]),
      (0b0010, [False, False, True]),
      (0b0100, [True, True, True]),
      (0b0101, [True, False, True]),
      (0b0110, [False, True, True]),
      (0b1000, [True, False, False]),
      (0b1001, [False, False, False]),
      (0b1010, [True, False, True])]"

text \<open>
  \<open>(indicator[k] << 3) | (indicator[k+1] << 2) | (indicator[k+2] << 1) | indicator[k+3]\<close>,
  the key of both lookups (\<open>k = 0\<close> for the order, \<open>k = 4\<close> for the inversion).
\<close>

definition selector :: "int list \<Rightarrow> nat \<Rightarrow> error + int" where
  "selector indicator k =
     and_then (getitem indicator k) (\<lambda>b3.
     and_then (getitem indicator (k + 1)) (\<lambda>b2.
     and_then (getitem indicator (k + 2)) (\<lambda>b1.
     and_then (getitem indicator (k + 3)) (\<lambda>b0.
       Inr (push_bit 3 b3 OR push_bit 2 b2 OR push_bit 1 b1 OR b0)))))"

text \<open>The two lookups with which \<open>_v2_unscramble\<close> and \<open>_v2_scramble\<close> both start.\<close>

definition v2_tables :: "int list \<Rightarrow> error + nat list \<times> bool list" where
  "v2_tables indicator =
     and_then (and_then (selector indicator 0) (lookup ORDER)) (\<lambda>order.
     and_then (and_then (selector indicator 4) (lookup INVERT)) (\<lambda>invert.
       Inr (order, invert)))"

text \<open>
  \<open>for i in range(3): if invert[i]: parts_permuted[i] = [bit ^ 1 for bit in parts_permuted[i]]\<close>
\<close>

definition invert_parts :: "bool list \<Rightarrow> int list list \<Rightarrow> int list list" where
  "invert_parts invert parts_permuted =
     foldl (\<lambda>pp i. if invert ! i then pp[i := map (\<lambda>bit. bit XOR 1) (pp ! i)] else pp)
       parts_permuted [0..<3]"

text \<open>\<open>xs[0::3]\<close>; \<open>xs[1::3]\<close> is \<open>every3 (drop 1 xs)\<close> and \<open>xs[2::3]\<close> is \<open>every3 (drop 2 xs)\<close>.\<close>

fun every3 :: "'a list \<Rightarrow> 'a list" where
  "every3 [] = []"
| "every3 (x # xs) = x # every3 (drop 2 xs)"

definition v2_unscramble :: "int list \<Rightarrow> int list \<Rightarrow> error + int list list" where
  "v2_unscramble indicator payload =
     (case v2_tables indicator of
        Inl KeyError \<Rightarrow> Inl (ValueError ''Illegal value for ternary bit'')
      | Inl e \<Rightarrow> Inl e
      | Inr (order, invert) \<Rightarrow>
          let parts_permuted = [every3 payload, every3 (drop 1 payload), every3 (drop 2 payload)];
              parts_permuted = invert_parts invert parts_permuted;
              parts = foldl (\<lambda>parts i. parts[order ! i := parts_permuted ! i]) [[], [], []] [0..<3]
          in Inr parts)"

text \<open>
  The last loop of \<open>_v2_scramble\<close>, for one \<open>i\<close> of \<open>range(len(parts_permuted[0]))\<close>:
  \<open>payload += [parts_permuted[0][i], parts_permuted[1][i], parts_permuted[2][i]]\<close>.
\<close>

definition interleave :: "int list list \<Rightarrow> int list \<Rightarrow> nat \<Rightarrow> error + int list" where
  "interleave parts_permuted payload i =
     and_then (getitem (parts_permuted ! 0) i) (\<lambda>a.
     and_then (getitem (parts_permuted ! 1) i) (\<lambda>b.
     and_then (getitem (parts_permuted ! 2) i) (\<lambda>c.
       Inr (payload @ [a, b, c]))))"

definition v2_scramble :: "int list \<Rightarrow> int list list \<Rightarrow> error + int list" where
  "v2_scramble indicator parts =
     and_then (v2_tables indicator) (\<lambda>(order, invert).
     and_then (map_all (\<lambda>i. getitem parts (order ! i)) [0..<3]) (\<lambda>parts_permuted.
       let parts_permuted = invert_parts invert parts_permuted
       in for_each (interleave parts_permuted) [0..<length (parts_permuted ! 0)] []))"

section \<open>Security+ 2.0: rolling code digits\<close>

definition decode_v2_rolling :: "int list \<Rightarrow> int list \<Rightarrow> error + int" where
  "decode_v2_rolling rolling1 rolling2 =
     (let rolling_digits = drop 8 rolling2 @ drop 8 rolling1;
          rolling_digits = rolling_digits @ slice rolling2 4 8 @ slice rolling1 4 8;
          rolling_digits = rolling_digits @ take 4 rolling2 @ take 4 rolling1;
          rolling = foldl (\<lambda>rolling digit. rolling * 3 + digit) 0 rolling_digits
      in if rolling \<ge> 2 ^ 28 then Inl (ValueError ''Rolling code was not in expected range'')
         else py_int2 (rev (format_b 28 rolling)))"

text \<open>
  The loop of \<open>_encode_v2_rolling\<close>, for one index \<open>i\<close> of \<open>range(17, -1, -1)\<close>; the state
  is \<open>(rolling_base3, rolling)\<close>. The list has 18 entries and \<open>i < 18\<close>.
\<close>

definition encode_v2_rolling_digit :: "int list \<times> int \<Rightarrow> nat \<Rightarrow> int list \<times> int" where
  "encode_v2_rolling_digit st i =
     (case st of (rolling_base3, rolling) \<Rightarrow> (rolling_base3[i := rolling mod 3], rolling div 3))"

definition encode_v2_rolling :: "int \<Rightarrow> error + int list \<times> int list" where
  "encode_v2_rolling rolling =
     and_then (py_int2 (rev (format_b 28 rolling))) (\<lambda>rolling.
       let rolling_base3 = fst (foldl encode_v2_rolling_digit (replicate 18 0, rolling) (rev [0..<18]));
           rolling1 = slice rolling_base3 14 18 @ slice rolling_base3 6 10 @ slice rolling_base3 1 2;
           rolling2 = slice rolling_base3 10 14 @ slice rolling_base3 2 6 @ slice rolling_base3 0 1
       in Inr (rolling1, rolling2))"

section \<open>Security+ 2.0: decoding\<close>

text \<open>
  \<open>for i in range(0, len(bits), 2): rolling.append((bits[i] << 1) | bits[i+1])\<close>, one
  iteration; the state is the list \<open>rolling\<close>.
\<close>

definition append_pair :: "int list \<Rightarrow> int list \<Rightarrow> nat \<Rightarrow> error + int list" where
  "append_pair bits rolling i =
     and_then (getitem bits i) (\<lambda>hi.
     and_then (getitem bits (i + 1)) (\<lambda>lo.
       Inr (rolling @ [push_bit 1 hi OR lo])))"

definition decode_v2_half_parts ::
  "int \<Rightarrow> int list \<Rightarrow> int list \<Rightarrow> error + int list \<times> int list \<times> int list option" where
  "decode_v2_half_parts packet_type indicator payload =
     and_then
       (if packet_type = 0 then Inr 30
        else if packet_type = 1 then Inr 54
        else if packet_type = 2 then Inl (ValueError ''Unsupported packet type'')
        else Inl (ValueError ''Invalid packet type''))
       (\<lambda>payload_length.
     if length payload \<noteq> payload_length then Inl (ValueError ''Incorrect payload length'')
     else
     and_then (v2_unscramble indicator payload) (\<lambda>parts.
     and_then (for_each (append_pair indicator) (range2 (length indicator)) []) (\<lambda>rolling.
     and_then (for_each (append_pair (parts ! 2)) (range2 (length (parts ! 2))) rolling) (\<lambda>rolling.
     if 3 \<in> set rolling then Inl (ValueError ''Illegal value for ternary bit'')
     else
       let fixed = take 10 (parts ! 0) @ take 10 (parts ! 1)
       in if packet_type = 0 then Inr (rolling, fixed, None)
          else if take 4 rolling \<noteq> drop (length rolling - 4) rolling
          then Inl (ValueError ''Last four ternary bits do not repeat first four'')
          else Inr (take (length rolling - 4) rolling, fixed,
                    Some (drop 10 (parts ! 0) @ drop 10 (parts ! 1)))))))"

definition decode_v2_half :: "int list \<Rightarrow> error + int list \<times> int list \<times> int list option" where
  "decode_v2_half code =
     and_then (getitem code 0) (\<lambda>b1.
     and_then (getitem code 1) (\<lambda>b0.
       let packet_type = push_bit 1 b1 OR b0;
           indicator = slice code 2 10;
           payload = drop 10 code
       in decode_v2_half_parts packet_type indicator payload))"

text \<open>\<open>int("".join(str(bit) for bit in bits), 2)\<close>\<close>

definition int_of_bits :: "int list \<Rightarrow> error + int" where
  "int_of_bits bits = py_int2 (concat (map py_str bits))"

definition decode_v2 :: "int list \<Rightarrow> error + int \<times> int \<times> int option" where
  "decode_v2 code =
     (let half_len = length code div 2 in
      and_then (decode_v2_half (take half_len code)) (\<lambda>(rolling1, fixed1, data1).
      and_then (decode_v2_half (drop half_len code)) (\<lambda>(rolling2, fixed2, data2).
      and_then (decode_v2_rolling rolling1 rolling2) (\<lambda>rolling.
      and_then (int_of_bits (fixed1 @ fixed2)) (\<lambda>fixed.
        case data1 of
          None \<Rightarrow> Inr (rolling, fixed, None)
        | Some d1 \<Rightarrow>
            (case data2 of
               None \<Rightarrow> Inl TypeError
             | Some d2 \<Rightarrow> and_then (int_of_bits (d1 @ d2)) (\<lambda>data. Inr (rolling, fixed, Some data))))))))"

definition decode_wireline_half :: "int list \<Rightarrow> error + int list \<times> int list \<times> int list option" where
  "decode_wireline_half code =
     (if slice code 8 10 \<noteq> [0, 0] then Inl (ValueError ''Unexpected values for bits 8 and 9'')
      else let indicator = take 8 code;
               payload = drop 10 code
           in decode_v2_half_parts 1 indicator payload)"

text \<open>\<open>for bit in range(7, -1, -1): code_bits.append((b >> bit) & 1)\<close>, for one byte \<open>b\<close>.\<close>

definition byte_bits :: "8 word \<Rightarrow> int list" where
  "byte_bits b = map (\<lambda>bit. drop_bit bit (uint b) AND 1) (rev [0..<8])"

definition decode_wireline :: "py_object \<Rightarrow> error + int \<times> int \<times> int" where
  "decode_wireline obj =
     (case obj of
        PyBytes code \<Rightarrow>
          if length code \<noteq> 19 then Inl (ValueError ''Input must be 19 bytes long'')
          else if take 3 code \<noteq> [0x55, 0x01, 0x00]
          then Inl (ValueError ''First three bytes must be 0x55, 0x01, 0x00'')
          else
            let code_bits = concat (map byte_bits (drop 3 code)) in
            and_then (decode_wireline_half (take 64 code_bits)) (\<lambda>(rolling1, fixed1, data1).
            and_then (decode_wireline_half (drop 64 code_bits)) (\<lambda>(rolling2, fixed2, data2).
            and_then (decode_v2_rolling rolling1 rolling2) (\<lambda>rolling.
            and_then (int_of_bits (fixed1 @ fixed2)) (\<lambda>fixed.
              case (data1, data2) of
                (Some d1, Some d2) \<Rightarrow>
                  and_then (int_of_bits (d1 @ d2)) (\<lambda>data. Inr (rolling, fixed, data))
              | _ \<Rightarrow> Inl TypeError))))
      | _ \<Rightarrow> Inl (ValueError ''Input must be bytes''))"

section \<open>Security+ 2.0: encoding\<close>

text \<open>\<open>for digit in digits: bits.append(digit >> 1); bits.append(digit & 1)\<close>\<close>

definition digit_bits :: "int list \<Rightarrow> int list" where
  "digit_bits digits = concat (map (\<lambda>digit. [drop_bit 1 digit, digit AND 1]) digits)"

definition encode_v2_half_parts ::
  "int list \<Rightarrow> int list \<Rightarrow> int list option \<Rightarrow> error + int \<times> int list \<times> int list" where
  "encode_v2_half_parts rolling fixed data =
     (let indicator = digit_bits (take 4 rolling);
          parts = [take 10 fixed, drop 10 fixed, digit_bits (drop 4 rolling)];
          (packet_type, parts) =
            (case data of
               None \<Rightarrow> (0, parts)
             | Some data \<Rightarrow>
                 (1, [parts ! 0 @ take 8 data, parts ! 1 @ drop 8 data,
                      parts ! 2 @ digit_bits (take 4 rolling)]))
      in and_then (v2_scramble indicator parts) (\<lambda>payload.
           Inr (packet_type, indicator, payload)))"

definition encode_v2_half :: "int list \<Rightarrow> int list \<Rightarrow> int list option \<Rightarrow> error + int list" where
  "encode_v2_half rolling fixed data =
     and_then (encode_v2_half_parts rolling fixed data) (\<lambda>(packet_type, indicator, payload).
       let packet_type_bits = [drop_bit 1 packet_type, packet_type AND 1]
       in Inr (packet_type_bits @ indicator @ payload))"

definition v2_check_limits :: "int \<Rightarrow> int \<Rightarrow> int option \<Rightarrow> error + unit" where
  "v2_check_limits rolling fixed data =
     (if rolling \<ge> 2 ^ 28 then Inl (ValueError ''Rolling code must be less than 2^28'')
      else if fixed \<ge> 2 ^ 40 then Inl (ValueError ''Fixed code must be less than 2^40'')
      else case data of
             None \<Rightarrow> Inr ()
           | Some d \<Rightarrow> if d \<ge> 2 ^ 32 then Inl (ValueError ''Data must be less than 2^32'')
                       else Inr ())"

text \<open>\<open>[int(bit) for bit in f"{n:0<width>b}"]\<close>\<close>

definition bits_of_int :: "nat \<Rightarrow> int \<Rightarrow> error + int list" where
  "bits_of_int width n = map_all py_int_char (format_b width n)"

definition encode_v2 :: "int \<Rightarrow> int \<Rightarrow> int option \<Rightarrow> error + int list" where
  "encode_v2 rolling fixed data =
     and_then (v2_check_limits rolling fixed data) (\<lambda>_.
     and_then (encode_v2_rolling rolling) (\<lambda>(rolling1, rolling2).
     and_then (bits_of_int 40 fixed) (\<lambda>fixed_bits.
       let fixed1 = take 20 fixed_bits;
           fixed2 = drop 20 fixed_bits
       in and_then
            (case data of
               None \<Rightarrow> Inr (None, None)
             | Some d \<Rightarrow>
                 and_then (bits_of_int 32 d) (\<lambda>data_bits.
                   Inr (Some (take 16 data_bits), Some (drop 16 data_bits))))
            (\<lambda>(data1, data2).
     and_then (encode_v2_half rolling1 fixed1 data1) (\<lambda>half1.
     and_then (encode_v2_half rolling2 fixed2 data2) (\<lambda>half2.
       Inr (half1 @ half2)))))))"

definition encode_wireline_half :: "int list \<Rightarrow> int list \<Rightarrow> int list option \<Rightarrow> error + int list" where
  "encode_wireline_half rolling fixed data =
     and_then (encode_v2_half_parts rolling fixed data) (\<lambda>(_, indicator, payload).
       Inr (indicator @ [0, 0] @ payload))"

text \<open>
  The inner loop of \<open>encode_wireline\<close>, for byte \<open>n\<close> of \<open>range(len(payload_bits) // 8)\<close>:
  \<open>for bit in range(8): byte |= payload_bits[n * 8 + bit] << (7 - bit)\<close>, every index
  being below \<open>len(payload_bits)\<close>.
\<close>

definition pack_byte :: "int list \<Rightarrow> nat \<Rightarrow> int" where
  "pack_byte payload_bits n =
     foldl (\<lambda>byte bit. byte OR push_bit (7 - bit) (payload_bits ! (n * 8 + bit))) 0 [0..<8]"

text \<open>
  \<open>encode_wireline\<close> has no default for \<open>data\<close>; when \<open>None\<close> is passed the limits are
  accepted and \<open>f"{data:032b}"\<close> raises a TypeError.
\<close>

definition encode_wireline :: "int \<Rightarrow> int \<Rightarrow> int option \<Rightarrow> error + 8 word list" where
  "encode_wireline rolling fixed data =
     and_then (v2_check_limits rolling fixed data) (\<lambda>_.
     and_then (encode_v2_rolling rolling) (\<lambda>(rolling1, rolling2).
     and_then (bits_of_int 40 fixed) (\<lambda>fixed_bits.
       let fixed1 = take 20 fixed_bits;
           fixed2 = drop 20 fixed_bits
       in and_then (case data of None \<Rightarrow> Inl TypeError | Some d \<Rightarrow> bits_of_int 32 d) (\<lambda>data_bits.
       let data1 = take 16 data_bits;
           data2 = drop 16 data_bits
       in
     and_then (encode_wireline_half rolling1 fixed1 (Some data1)) (\<lambda>half1.
     and_then (encode_wireline_half rolling2 fixed2 (Some data2)) (\<lambda>half2.
       let payload_bits = half1 @ half2;
           packet = [0x55, 0x01, 0x00] @ map (pack_byte payload_bits) [0..<length payload_bits div 8]
       in py_bytes packet))))))"

section \<open>Security+ 2.0: Manchester framing\<close>

definition manchester :: "int list \<Rightarrow> int list" where
  "manchester code = foldl (\<lambda>output bit. output @ (if bit = 0 then [1, 0] else [0, 1])) [] code"

text \<open>The local constant \<open>preamble\<close> of \<open>encode_v2_manchester\<close>.\<close>

definition preamble :: "int list" where
  "preamble = [0, 0, 0, 0, 0, 0, 0, 0, 0, 0, 0, 0, 0, 0, 0, 0, 1, 1, 1, 1]"

definition encode_v2_manchester :: "int \<Rightarrow> int \<Rightarrow> int option \<Rightarrow> error + int list" where
  "encode_v2_manchester rolling fixed data =
     and_then (encode_v2 rolling fixed data) (\<lambda>code.
       let half_len = length code div 2;
           packet1 = preamble @ [0, 0] @ take half_len code;
           packet2 = preamble @ [0, 1] @ drop half_len code;
           blank = replicate 33 0
       in Inr (manchester packet1 @ blank @ manchester packet2 @ blank))"

section \<open>Notions used in the statements and proofs\<close>

text \<open>Bits and ternary digits.\<close>

definition is_bit :: "int \<Rightarrow> bool" where
  "is_bit b = (b = 0 \<or> b = 1)"

definition is_trit :: "int \<Rightarrow> bool" where
  "is_trit d = (d = 0 \<or> d = 1 \<or> d = 2)"

text \<open>
  The \<open>w\<close> low bits of \<open>n\<close>, most significant first; the value of a list of bits; the
  number whose \<open>w\<close> bits are those of \<open>n\<close> in reverse order.
\<close>

fun bits_be :: "nat \<Rightarrow> int \<Rightarrow> int list" where
  "bits_be 0 n = []"
| "bits_be (Suc w) n = bits_be w (n div 2) @ [n mod 2]"

definition value_be :: "int list \<Rightarrow> int" where
  "value_be bs = foldl (\<lambda>v b. 2 * v + b) 0 bs"

definition bitrev :: "nat \<Rightarrow> int \<Rightarrow> int" where
  "bitrev w n = value_be (rev (bits_be w n))"

text \<open>The \<open>k\<close> low base-3 digits of \<open>n\<close>, most significant first, and the value of such a list.\<close>

fun digits3 :: "nat \<Rightarrow> int \<Rightarrow> int list" where
  "digits3 0 n = []"
| "digits3 (Suc k) n = digits3 k (n div 3) @ [n mod 3]"

definition horner3 :: "int list \<Rightarrow> int" where
  "horner3 ds = foldl (\<lambda>v d. 3 * v + d) 0 ds"

text \<open>
  The state of the second loop of \<open>encode\<close> and of the loop of \<open>decode\<close> after \<open>k\<close>
  iterations.
\<close>

definition enc_state :: "int list \<Rightarrow> int list \<Rightarrow> nat \<Rightarrow> int \<times> int list" where
  "enc_state rd fd k = foldl (encode_pair rd fd) (0, []) [0..<k]"

definition dec_state :: "int list \<Rightarrow> nat \<Rightarrow> error + int \<times> int \<times> int" where
  "dec_state code k = for_each (decode_body code) (map (\<lambda>k. 2 * k) [0..<k]) (0, 0, 0)"

text \<open>
  The base-3 number made of the entries 0, 2, ..., 38 of a list: the value of \<open>rolling\<close>
  when the loop of \<open>decode\<close> ends.
\<close>

definition rolling_sum :: "int list \<Rightarrow> int" where
  "rolling_sum code = horner3 (map (\<lambda>k. code ! (2 * k)) [0..<20])"

text \<open>\<open>isinstance(obj, bytes)\<close>\<close>

definition isinstance_bytes :: "py_object \<Rightarrow> bool" where
  "isinstance_bytes obj = (case obj of PyBytes _ \<Rightarrow> True | _ \<Rightarrow> False)"

text \<open>
  Three lists of one length taken in turn, which is what the last loop of
  \<open>_v2_scramble\<close> builds; the inversion of one part; the last loop of \<open>_v2_unscramble\<close>.
\<close>

fun weave :: "'a list \<Rightarrow> 'a list \<Rightarrow> 'a list \<Rightarrow> 'a list" where
  "weave (x # xs) (y # ys) (z # zs) = x # y # z # weave xs ys zs"
| "weave _ _ _ = []"

definition invert_if :: "bool \<Rightarrow> int list \<Rightarrow> int list" where
  "invert_if b xs = (if b then map (\<lambda>bit. bit XOR 1) xs else xs)"

definition unpermute :: "nat list \<Rightarrow> int list list \<Rightarrow> int list list" where
  "unpermute order parts_permuted =
     foldl (\<lambda>parts i. parts[order ! i := parts_permuted ! i]) [[], [], []] [0..<3]"

text \<open>The nine keys of \<open>_ORDER\<close> and of \<open>_INVERT\<close>, and the six orders of three parts.\<close>

definition legal_keys :: "int list" where
  "legal_keys = [0b0000, 0b0001, 0b0010, 0b0100, 0b0101, 0b0110, 0b1000, 0b1001, 0b1010]"

definition permutations3 :: "nat list list" where
  "permutations3 = [[0, 1, 2], [0, 2, 1], [1, 0, 2], [1, 2, 0], [2, 0, 1], [2, 1, 0]]"

text \<open>The two lists that \<open>_encode_v2_rolling\<close> cuts out of the 18 base-3 digits.\<close>

definition rolling_halves :: "int list \<Rightarrow> int list \<times> int list" where
  "rolling_halves b3 =
     (slice b3 14 18 @ slice b3 6 10 @ slice b3 1 2, slice b3 10 14 @ slice b3 2 6 @ slice b3 0 1)"

text \<open>The byte that the inner loop of \<open>encode_wireline\<close> makes of eight bits.\<close>

definition pack8 :: "int list \<Rightarrow> int" where
  "pack8 c = foldl (\<lambda>byte bit. byte OR push_bit (7 - bit) (c ! bit)) 0 [0..<8]"

text \<open>
  The arguments of the 2.0 encoders that the data model allows: unsigned integers
  within their ranges, the data being optional.
\<close>

definition valid_v2 :: "int \<Rightarrow> int \<Rightarrow> int option \<Rightarrow> bool" where
  "valid_v2 rolling fixed data =
     (0 \<le> rolling \<and> rolling < 2 ^ 28 \<and> 0 \<le> fixed \<and> fixed < 2 ^ 40 \<and>
      (case data of None \<Rightarrow> True | Some d \<Rightarrow> 0 \<le> d \<and> d < 2 ^ 32))"

text \<open>
  The Manchester expansion as the specification words it, to be compared with the loop
  of \<open>_manchester\<close>: each bit becomes two, \<open>0\<close> as \<open>1, 0\<close> and \<open>1\<close> as \<open>0, 1\<close>.
\<close>

definition spec_manchester :: "int list \<Rightarrow> int list" where
  "spec_manchester bits = concat (map (\<lambda>bit. if bit = 0 then [1, 0] else [0, 1]) bits)"

section \<open>Results, formatting and bit reversal\<close>

lemma length_bits_be [simp]: "length (bits_be w n) = w"
  by (induction w arbitrary: n) auto

lemma bits_be_bits [simp]: "list_all is_bit (bits_be w n)"
  by (induction w arbitrary: n) (auto simp: is_bit_def)

lemma bits_be_zero [simp]: "bits_be w 0 = replicate w 0"
  by (induction w) (auto simp: replicate_append_same)

lemma value_be_snoc [simp]: "value_be (bs @ [b]) = 2 * value_be bs + b"
  by (simp add: value_be_def)

lemma value_be_Nil [simp]: "value_be [] = 0"
  by (simp add: value_be_def)

lemma value_be_bits_be: "0 \<le> n \<Longrightarrow> n < 2 ^ w \<Longrightarrow> value_be (bits_be w n) = n"
proof (induction w arbitrary: n)
  case 0
  then show ?case by simp
next
  case (Suc w)
  have "n div 2 < 2 ^ w" using Suc.prems by simp
  moreover have "0 \<le> n div 2" using Suc.prems by simp
  ultimately have "value_be (bits_be w (n div 2)) = n div 2" by (rule Suc.IH[rotated])
  then show ?case by simp
qed

lemma value_be_bounds: "list_all is_bit bs \<Longrightarrow> 0 \<le> value_be bs \<and> value_be bs < 2 ^ length bs"
proof (induction bs rule: rev_induct)
  case Nil
  then show ?case by simp
next
  case (snoc b bs)
  then show ?case by (auto simp: is_bit_def)
qed

lemma bits_be_value_be: "list_all is_bit bs \<Longrightarrow> bits_be (length bs) (value_be bs) = bs"
proof (induction bs rule: rev_induct)
  case Nil
  then show ?case by simp
next
  case (snoc b bs)
  then show ?case by (auto simp: is_bit_def)
qed

lemma foldl_be_shift:
  "foldl (\<lambda>v b. 2 * v + b) a bs = a * 2 ^ length bs + foldl (\<lambda>v b. 2 * v + b) (0::int) bs"
  by (induction bs rule: rev_induct) (simp_all add: algebra_simps)

lemma value_be_Cons: "value_be (b # bs) = b * 2 ^ length bs + value_be bs"
  using foldl_be_shift [of b bs] by (simp add: value_be_def)

lemma bin_digits_pos: "0 \<le> n \<Longrightarrow> bin_digits n \<noteq> []"
  by (subst bin_digits.simps) simp

lemma format_b_bits:
  "0 \<le> n \<Longrightarrow> n < 2 ^ w \<Longrightarrow> 0 < w \<Longrightarrow> zfill w (bin_digits n) = map bit_char (bits_be w n)"
proof (induction w arbitrary: n)
  case 0
  then show ?case by simp
next
  case (Suc w)
  show ?case
  proof (cases "n < 2")
    case True
    then have "n div 2 = 0" using Suc.prems by simp
    moreover have "bit_char n = bit_char (n mod 2)" using True Suc.prems by simp
    ultimately show ?thesis using True
      by (subst bin_digits.simps) (simp add: zfill_def bit_char_def)
  next
    case False
    then have w: "0 < w" using Suc.prems by (cases w) auto
    have "zfill w (bin_digits (n div 2)) = map bit_char (bits_be w (n div 2))"
      using Suc.prems False w by (intro Suc.IH) auto
    moreover have "zfill (Suc w) (bin_digits n) = zfill w (bin_digits (n div 2)) @ [bit_char (n mod 2)]"
      using False by (subst bin_digits.simps) (simp add: zfill_def)
    ultimately show ?thesis by simp
  qed
qed

lemma bin_value_bits:
  "list_all is_bit bs \<Longrightarrow> bs \<noteq> [] \<Longrightarrow> bin_value (map bit_char bs) = Inr (value_be bs)"
proof -
  assume bs: "list_all is_bit bs" and ne: "bs \<noteq> []"
  have chars: "list_all is_bit_char (map bit_char bs)"
    by (induction bs) (simp_all add: is_bit_char_def bit_char_def)
  have "foldl (\<lambda>v c. 2 * v + (if c = CHR ''1'' then 1 else 0)) 0 (map bit_char bs) = value_be bs"
    using bs by (induction bs rule: rev_induct) (auto simp: is_bit_def bit_char_def)
  with chars ne show ?thesis by (simp add: bin_value_def)
qed

lemma py_int2_bits:
  "list_all is_bit bs \<Longrightarrow> bs \<noteq> [] \<Longrightarrow> py_int2 (map bit_char bs) = Inr (value_be bs)"
  using bin_value_bits [of bs]
  by (cases bs) (auto simp: py_int2_def bit_char_def)

lemma py_int2_rev_format_b:
  assumes "0 \<le> n" "n < 2 ^ w" "0 < w"
  shows "py_int2 (rev (format_b w n)) = Inr (bitrev w n)"
proof -
  have "rev (format_b w n) = map bit_char (rev (bits_be w n))"
    using assms by (simp add: format_b_def format_b_bits rev_map)
  moreover have "rev (bits_be w n) \<noteq> []"
    using assms by (cases w) auto
  ultimately show ?thesis
    by (simp add: py_int2_bits bitrev_def)
qed

lemma bitrev_bounds: "0 \<le> bitrev w n \<and> bitrev w n < 2 ^ w"
  using value_be_bounds [of "rev (bits_be w n)"] by (simp add: bitrev_def)

lemma bitrev_bitrev: "0 \<le> n \<Longrightarrow> n < 2 ^ w \<Longrightarrow> bitrev w (bitrev w n) = n"
  using bits_be_value_be [of "rev (bits_be w n)"]
  by (simp add: bitrev_def value_be_bits_be)

lemma bitrev_even: "even n \<Longrightarrow> 0 < w \<Longrightarrow> bitrev w n < 2 ^ (w - 1)"
proof -
  assume e: "even n" and w: "0 < w"
  then obtain v where v: "w = Suc v" by (cases w) auto
  have "bitrev w n = value_be (rev (bits_be v (n div 2)))"
    using e by (simp add: v bitrev_def value_be_Cons)
  then show ?thesis
    using value_be_bounds [of "rev (bits_be v (n div 2))"] by (simp add: v)
qed

lemma and_then_Inr [simp]: "and_then (Inr x) f = f x"
  by (simp add: and_then_def)

lemma and_then_Inl [simp]: "and_then (Inl e) f = Inl e"
  by (simp add: and_then_def)

lemma and_then_return [simp]: "and_then r Inr = r"
  by (cases r) simp_all

lemma for_each_append:
  "for_each body (xs @ ys) st = and_then (for_each body xs st) (for_each body ys)"
  by (induction xs arbitrary: st) (auto simp: and_then_def split: sum.splits)

lemma length_digits3 [simp]: "length (digits3 k n) = k"
  by (induction k arbitrary: n) auto

lemma digits3_trits [simp]: "list_all is_trit (digits3 k n)"
proof (induction k arbitrary: n)
  case 0
  then show ?case by simp
next
  case (Suc k)
  have "n mod 3 = 0 \<or> n mod 3 = 1 \<or> n mod 3 = 2" by presburger
  with Suc show ?case by (simp add: is_trit_def)
qed

lemma horner3_Nil [simp]: "horner3 [] = 0"
  by (simp add: horner3_def)

lemma horner3_snoc [simp]: "horner3 (ds @ [d]) = 3 * horner3 ds + d"
  by (simp add: horner3_def)

lemma horner3_digits3: "0 \<le> n \<Longrightarrow> n < 3 ^ k \<Longrightarrow> horner3 (digits3 k n) = n"
proof (induction k arbitrary: n)
  case 0
  then show ?case by simp
next
  case (Suc k)
  have "n div 3 < 3 ^ k" using Suc.prems by simp
  moreover have "0 \<le> n div 3" using Suc.prems by simp
  ultimately have "horner3 (digits3 k (n div 3)) = n div 3" by (rule Suc.IH[rotated])
  then show ?case by simp
qed

lemma encode_digits_loop:
  "k \<le> length A \<Longrightarrow> k \<le> length B \<Longrightarrow>
   foldl encode_digits (A, B, r, f) (rev [0..<k]) =
     (digits3 k r @ drop k A, digits3 k f @ drop k B, r div 3 ^ k, f div 3 ^ k)"
proof (induction k arbitrary: A B r f)
  case 0
  then show ?case by simp
next
  case (Suc k)
  have A: "drop k (A[k := r mod 3]) = r mod 3 # drop (Suc k) A"
    using Suc.prems by (simp add: Cons_nth_drop_Suc [symmetric])
  have B: "drop k (B[k := f mod 3]) = f mod 3 # drop (Suc k) B"
    using Suc.prems by (simp add: Cons_nth_drop_Suc [symmetric])
  have d: "r div 3 div 3 ^ k = r div 3 ^ Suc k" "f div 3 div 3 ^ k = f div 3 ^ Suc k"
    by (simp_all add: zdiv_zmult2_eq)
  show ?case
    using Suc.prems Suc.IH [of "A[k := r mod 3]" "B[k := f mod 3]" "r div 3" "f div 3"]
    by (simp add: encode_digits_def A B d del: power_Suc)
qed

lemma enc_state_0 [simp]: "enc_state rd fd 0 = (0, [])"
  by (simp add: enc_state_def)

lemma enc_state_Suc: "enc_state rd fd (Suc k) = encode_pair rd fd (enc_state rd fd k) k"
  by (simp add: enc_state_def)

lemma enc_state_code:
  "snd (enc_state rd fd (Suc k)) = snd (enc_state rd fd k) @ [rd ! k, fst (enc_state rd fd (Suc k)) mod 3]"
  by (simp add: enc_state_Suc encode_pair_def Let_def split: prod.splits)

lemma enc_state_acc:
  "fst (enc_state rd fd (Suc k)) =
     (if k = 0 \<or> k = 10 then 0 else fst (enc_state rd fd k)) + rd ! k + fd ! k"
  by (simp add: enc_state_Suc encode_pair_def Let_def split: prod.splits)

lemma length_enc_state [simp]: "length (snd (enc_state rd fd k)) = 2 * k"
  by (induction k) (simp_all add: enc_state_code)

lemma enc_state_prefix:
  "k \<le> n \<Longrightarrow> take (2 * k) (snd (enc_state rd fd n)) = snd (enc_state rd fd k)"
proof (induction n)
  case 0
  then show ?case by simp
next
  case (Suc n)
  show ?case
  proof (cases "k = Suc n")
    case True
    then show ?thesis by simp
  next
    case False
    then have "k \<le> n" using Suc.prems by simp
    then show ?thesis using Suc.IH by (simp add: enc_state_code)
  qed
qed

lemma enc_state_nth:
  assumes "k < n"
  shows "snd (enc_state rd fd n) ! (2 * k) = rd ! k"
    and "snd (enc_state rd fd n) ! Suc (2 * k) = fst (enc_state rd fd (Suc k)) mod 3"
proof -
  let ?C = "snd (enc_state rd fd n)"
  have t: "take (2 * Suc k) ?C = snd (enc_state rd fd (Suc k))"
    using assms by (intro enc_state_prefix) simp
  have "?C ! (2 * k) = take (2 * Suc k) ?C ! (2 * k)" by simp
  also have "\<dots> = rd ! k"
    unfolding t by (simp add: enc_state_code nth_append)
  finally show "?C ! (2 * k) = rd ! k" .
  have "?C ! Suc (2 * k) = take (2 * Suc k) ?C ! Suc (2 * k)" by simp
  also have "\<dots> = fst (enc_state rd fd (Suc k)) mod 3"
    unfolding t by (simp add: enc_state_code nth_append)
  finally show "?C ! Suc (2 * k) = fst (enc_state rd fd (Suc k)) mod 3" .
qed

lemma for_each_Nil: "for_each body [] = Inr"
  by (rule ext) simp

lemma for_each_single: "for_each body [x] = (\<lambda>st. body st x)"
  by (rule ext) (simp add: for_each_Nil)

lemma range2_40: "range2 40 = map (\<lambda>k. 2 * k) [0..<20]"
  by (simp add: range2_def)

lemma decode_dec_state:
  "decode code =
     and_then (dec_state code 20) (\<lambda>(rolling, fixed, acc).
       and_then (py_int2 (rev (format_b 32 rolling))) (\<lambda>rolling. Inr (rolling, fixed)))"
  by (simp add: decode_def dec_state_def range2_40)

lemma dec_state_Suc:
  "dec_state code (Suc k) = and_then (dec_state code k) (\<lambda>st. decode_body code st (2 * k))"
  by (simp add: dec_state_def for_each_append for_each_single)

lemma dec_state_enc_state:
  assumes "list_all is_trit fd" and "n \<le> length fd" and "n \<le> length rd"
  shows "k \<le> n \<Longrightarrow>
    dec_state (snd (enc_state rd fd n)) k =
      Inr (horner3 (take k rd), horner3 (take k fd), fst (enc_state rd fd k))"
proof (induction k)
  case 0
  then show ?case by (simp add: dec_state_def enc_state_def)
next
  case (Suc k)
  then have k: "k < n" by simp
  let ?C = "snd (enc_state rd fd n)"
  let ?a = "if k = 0 \<or> k = 10 then 0 else fst (enc_state rd fd k)"
  have "is_trit (fd ! k)"
    using assms k by (simp add: list_all_length)
  then have f: "(?a + rd ! k + fd ! k - (?a + rd ! k)) mod 3 = fd ! k"
    by (auto simp: is_trit_def)
  have g: "getitem ?C (2 * k) = Inr (rd ! k)"
    "getitem ?C (Suc (2 * k)) = Inr ((?a + rd ! k + fd ! k) mod 3)"
    using k by (simp_all add: getitem_def enc_state_nth enc_state_acc)
  have m: "((?a + rd ! k + fd ! k) mod 3 - (?a + rd ! k)) mod 3 = fd ! k"
    using f by (simp add: mod_diff_left_eq)
  have t: "take (Suc k) rd = take k rd @ [rd ! k]" "take (Suc k) fd = take k fd @ [fd ! k]"
    using assms k by (simp_all add: take_Suc_conv_app_nth)
  have r: "(2 * k \<in> set [0, 20]) = (k = 0 \<or> k = 10)" by auto
  have "decode_body ?C (R, F, fst (enc_state rd fd k)) (2 * k) =
      Inr (R * 3 + rd ! k, F * 3 + fd ! k, ?a + rd ! k + fd ! k)" for R F
    unfolding decode_body_def Let_def prod.case r using g m by simp
  moreover have "dec_state ?C k = Inr (horner3 (take k rd), horner3 (take k fd), fst (enc_state rd fd k))"
    using Suc by simp
  ultimately show ?case
    by (simp add: dec_state_Suc t enc_state_acc)
qed

lemma encode_value:
  assumes "rolling < 2 ^ 32" and "fixed < 3 ^ 20"
  shows "encode rolling fixed =
    Inr (snd (enc_state (digits3 20 (bitrev 32 (rolling AND 0xfffffffe))) (digits3 20 fixed) 20))"
proof -
  have "0 \<le> rolling AND 0xfffffffe" by simp
  moreover have "rolling AND 0xfffffffe \<le> 0xfffffffe" by (rule AND_upper2) simp
  ultimately have "py_int2 (rev (format_b 32 (rolling AND 0xfffffffe)))
      = Inr (bitrev 32 (rolling AND 0xfffffffe))"
    by (intro py_int2_rev_format_b) simp_all
  then show ?thesis
    using assms by (simp add: encode_def encode_digits_loop enc_state_def)
qed

section \<open>Security+ (v1): what decode reads\<close>

lemma for_each_cong:
  "(\<And>x st. x \<in> set xs \<Longrightarrow> f st x = g st x) \<Longrightarrow> for_each f xs st = for_each g xs st"
proof (induction xs arbitrary: st)
  case Nil
  then show ?case by simp
next
  case (Cons x xs)
  have "for_each f xs = for_each g xs"
    using Cons by (intro ext) auto
  moreover have "f st x = g st x" using Cons.prems by simp
  ultimately show ?case by simp
qed

lemma decode_body_take:
  "Suc i < n \<Longrightarrow> decode_body (take n code) st i = decode_body code st i"
  by (simp add: decode_body_def getitem_def)

lemma decode_take_40: "decode (take 40 code) = decode code"
proof -
  have "for_each (decode_body (take 40 code)) (range2 40) (0, 0, 0) =
        for_each (decode_body code) (range2 40) (0, 0, 0)"
    by (rule for_each_cong) (auto simp: range2_40 intro!: decode_body_take)
  then show ?thesis by (simp add: decode_def)
qed

lemma decode_body_error: "decode_body code st i = Inl e \<Longrightarrow> e = IndexError"
  by (auto simp: decode_body_def getitem_def and_then_def Let_def split: prod.splits if_splits)

lemma decode_body_short: "length code < i + 2 \<Longrightarrow> decode_body code st i = Inl IndexError"
  by (auto simp: decode_body_def getitem_def and_then_def Let_def split: prod.splits)

lemma dec_state_short:
  "(\<forall>e. dec_state code k = Inl e \<longrightarrow> e = IndexError) \<and>
   (length code < 2 * k \<longrightarrow> dec_state code k = Inl IndexError)"
proof (induction k)
  case 0
  then show ?case by (simp add: dec_state_def)
next
  case (Suc k)
  show ?case
  proof (cases "dec_state code k")
    case (Inl e)
    then show ?thesis using Suc by (simp add: dec_state_Suc)
  next
    case (Inr st)
    then have "\<not> length code < 2 * k" using Suc by auto
    then show ?thesis
      using Inr decode_body_error [of code st "2 * k"] decode_body_short [of code "2 * k" st]
      by (auto simp: dec_state_Suc)
  qed
qed

lemma decode_short: "length code < 40 \<Longrightarrow> decode code = Inl IndexError"
  using dec_state_short [of code 20] by (simp add: decode_dec_state)

lemma is_bit_char_bit_char [simp]: "is_bit_char (bit_char d)"
  by (simp add: is_bit_char_def bit_char_def)

lemma bin_digits_chars: "list_all is_bit_char (bin_digits n)"
proof (induction n rule: bin_digits.induct)
  case (1 n)
  show ?case
  proof (cases "n < 2")
    case True
    then show ?thesis by (subst bin_digits.simps) simp
  next
    case False
    then show ?thesis using 1 by (subst bin_digits.simps) simp
  qed
qed

lemma py_int2_format_nonneg:
  assumes "0 \<le> n"
  shows "\<exists>v. py_int2 (rev (format_b w n)) = Inr v"
proof -
  let ?s = "rev (format_b w n)"
  have "list_all is_bit_char (replicate k (CHR ''0''))" for k
    by (induction k) (simp_all add: is_bit_char_def)
  then have c: "list_all is_bit_char ?s"
    using assms bin_digits_chars [of n] by (simp add: format_b_def zfill_def)
  have "?s \<noteq> []"
    using assms bin_digits_pos [of n] by (simp add: format_b_def zfill_def)
  then obtain c cs where s: "?s = c # cs" by (cases ?s) auto
  then have "is_bit_char c" using c by simp
  then have "py_int2 ?s = bin_value ?s"
    unfolding s by (auto simp: py_int2_def is_bit_char_def)
  then show ?thesis using c s by (simp add: bin_value_def)
qed

lemma dec_state_accepts:
  "2 * k \<le> length code \<Longrightarrow> list_all (\<lambda>d. 0 \<le> d) (take (2 * k) code) \<Longrightarrow>
   \<exists>r f a. dec_state code k = Inr (r, f, a) \<and> 0 \<le> r"
proof (induction k)
  case 0
  then show ?case by (simp add: dec_state_def)
next
  case (Suc k)
  have "list_all (\<lambda>d. 0 \<le> d) (take (2 * k) code)"
    using Suc.prems(2) by (auto simp: list_all_length)
  then obtain r f a where st: "dec_state code k = Inr (r, f, a)" and r: "0 \<le> r"
    using Suc by auto
  have "0 \<le> code ! (2 * k)"
    using Suc.prems by (auto simp: list_all_length)
  then show ?case
    using Suc.prems(1) st r by (simp add: dec_state_Suc decode_body_def getitem_def Let_def)
qed

lemma decode_accepts:
  assumes "40 \<le> length code" and "list_all is_trit (take 40 code)"
  shows "\<exists>r f. decode code = Inr (r, f)"
proof -
  have "list_all (\<lambda>d. 0 \<le> d) (take (2 * 20) code)"
    using assms(2) by (auto simp: list_all_iff is_trit_def)
  then obtain r f a where st: "dec_state code 20 = Inr (r, f, a)" and r: "0 \<le> r"
    using dec_state_accepts [of 20 code] assms(1) by auto
  obtain v where "py_int2 (rev (format_b 32 r)) = Inr v"
    using py_int2_format_nonneg [OF r] by blast
  then show ?thesis using st by (simp add: decode_dec_state)
qed

lemma dec_state_rolling:
  "2 * k \<le> length code \<Longrightarrow>
   \<exists>f a. dec_state code k = Inr (horner3 (map (\<lambda>j. code ! (2 * j)) [0..<k]), f, a)"
proof (induction k)
  case 0
  then show ?case by (simp add: dec_state_def)
next
  case (Suc k)
  then obtain f a where st: "dec_state code k = Inr (horner3 (map (\<lambda>j. code ! (2 * j)) [0..<k]), f, a)"
    by auto
  show ?case
    using Suc.prems by (simp add: dec_state_Suc st decode_body_def getitem_def Let_def mult.commute)
qed

lemma py_int2_format_neg:
  assumes "n < 0"
  shows "py_int2 (rev (format_b w n)) = Inl invalid_literal"
proof -
  let ?z = "zfill (w - 1) (bin_digits (- n))"
  have "list_all is_bit_char (replicate k (CHR ''0''))" for k
    by (induction k) (simp_all add: is_bit_char_def)
  then have z: "list_all is_bit_char ?z" "?z \<noteq> []"
    using bin_digits_chars [of "- n"] bin_digits_pos [of "- n"] assms
    by (simp_all add: zfill_def)
  have f: "rev (format_b w n) = rev ?z @ [CHR ''-'']"
    using assms by (simp add: format_b_def)
  obtain c cs where r: "rev ?z = c # cs" using z(2) by (cases "rev ?z") auto
  then have "c \<in> set (rev ?z)" by simp
  then have "is_bit_char c" using z(1) by (simp add: list_all_iff)
  then have "py_int2 (rev (format_b w n)) = bin_value (rev (format_b w n))"
    unfolding f r by (auto simp: py_int2_def is_bit_char_def)
  moreover have "\<not> list_all is_bit_char (rev (format_b w n))"
    unfolding f by (simp add: is_bit_char_def)
  ultimately show ?thesis by (simp add: bin_value_def)
qed

section \<open>Security+ 2.0: illegal indicators\<close>

lemma list8: "length xs = 8 \<Longrightarrow> \<exists>a b c d e f g h. xs = [a, b, c, d, e, f, g, h]"
  by (simp add: numeral_eq_Suc length_Suc_conv) blast

lemma lookup_ORDER_3: "lookup ORDER 3 = Inl KeyError"
  by (simp add: lookup_def ORDER_def)

lemma lookup_INVERT_3: "lookup INVERT 3 = Inl KeyError"
  by (simp add: lookup_def INVERT_def)

lemma lookup_cases: "lookup d k = Inl KeyError \<or> (\<exists>v. lookup d k = Inr v)"
  by (simp add: lookup_def split: option.splits)

lemma v2_tables_illegal:
  assumes "length indicator = 8"
    and "take 4 indicator = [0, 0, 1, 1] \<or> drop 4 indicator = [0, 0, 1, 1]"
  shows "v2_tables indicator = Inl KeyError"
proof -
  obtain a b c d e f g h where i: "indicator = [a, b, c, d, e, f, g, h]"
    using list8 [OF assms(1)] by blast
  have s: "selector indicator 0 = Inr (push_bit 3 a OR push_bit 2 b OR push_bit 1 c OR d)"
    "selector indicator 4 = Inr (push_bit 3 e OR push_bit 2 f OR push_bit 1 g OR h)"
    by (simp_all add: i selector_def getitem_def)
  from assms(2) show ?thesis
  proof
    assume "take 4 indicator = [0, 0, 1, 1]"
    then have "selector indicator 0 = Inr 3" by (simp add: i selector_def getitem_def)
    then show ?thesis by (simp add: v2_tables_def lookup_ORDER_3)
  next
    assume "drop 4 indicator = [0, 0, 1, 1]"
    then have "selector indicator 4 = Inr 3" by (simp add: i selector_def getitem_def)
    then show ?thesis
      using lookup_cases [of ORDER "push_bit 3 a OR push_bit 2 b OR push_bit 1 c OR d"]
      by (auto simp: v2_tables_def lookup_INVERT_3 s)
  qed
qed

lemma unscramble_0011:
  "v2_unscramble [0, 0, 1, 1, 0, 0, 0, 0] (replicate 30 0) = Inl (ValueError ''Illegal value for ternary bit'')"
  by code_simp

lemma decode_half_parts_digit_3:
  "decode_v2_half_parts 0 [0, 0, 0, 0, 0, 0, 0, 0] (replicate 30 0) = Inl (ValueError ''Illegal value for ternary bit'')"
  by code_simp

lemma unscramble_0000:
  "v2_unscramble [0, 0, 0, 0, 0, 0, 0, 0] (replicate 30 0) = Inr [replicate 10 1, replicate 10 0, replicate 10 1]"
  by code_simp

section \<open>Security+ 2.0: scrambling and unscrambling\<close>

lemma invert_if_twice [simp]: "invert_if b (invert_if b xs) = xs"
proof -
  have "(x XOR 1) XOR 1 = x" for x :: int
    by (simp add: xor.assoc)
  then show ?thesis by (simp add: invert_if_def comp_def)
qed

lemma length_invert_if [simp]: "length (invert_if b xs) = length xs"
  by (simp add: invert_if_def)

lemma invert_parts_3:
  "invert_parts [i0, i1, i2] [a, b, c] = [invert_if i0 a, invert_if i1 b, invert_if i2 c]"
  by (simp add: invert_parts_def invert_if_def upt_rec numeral_eq_Suc)

lemma lookup_ORDER_legal:
  "k \<in> set legal_keys \<Longrightarrow> \<exists>order. lookup ORDER k = Inr order \<and> order \<in> set permutations3"
  by (auto simp: legal_keys_def lookup_def ORDER_def permutations3_def)

lemma lookup_INVERT_legal:
  "k \<in> set legal_keys \<Longrightarrow> \<exists>i0 i1 i2. lookup INVERT k = Inr [i0, i1, i2]"
  by (auto simp: legal_keys_def lookup_def INVERT_def)

lemma weave_snoc:
  "length xs = length ys \<Longrightarrow> length ys = length zs \<Longrightarrow>
   weave (xs @ [x]) (ys @ [y]) (zs @ [z]) = weave xs ys zs @ [x, y, z]"
  by (induction xs ys zs rule: list_induct3) simp_all

lemma interleave_loop:
  assumes "length a = length b" and "length b = length c"
  shows "n \<le> length a \<Longrightarrow>
    for_each (interleave [a, b, c]) [0..<n] [] = Inr (weave (take n a) (take n b) (take n c))"
proof (induction n)
  case 0
  then show ?case by simp
next
  case (Suc n)
  then have n: "n < length a" "n < length b" "n < length c" using assms by simp_all
  have "interleave [a, b, c] payload n = Inr (payload @ [a ! n, b ! n, c ! n])" for payload
    using n by (simp add: interleave_def getitem_def)
  then show ?case
    using Suc n by (simp add: for_each_append for_each_single take_Suc_conv_app_nth weave_snoc)
qed

lemma interleave_all:
  assumes "length a = length b" and "length b = length c"
  shows "for_each (interleave [a, b, c]) [0..<length a] [] = Inr (weave a b c)"
  using interleave_loop [OF assms, of "length a"] assms by simp

lemma every3_weave:
  "length xs = length ys \<Longrightarrow> length ys = length zs \<Longrightarrow>
   every3 (weave xs ys zs) = xs \<and> every3 (drop 1 (weave xs ys zs)) = ys \<and>
   every3 (drop 2 (weave xs ys zs)) = zs"
  by (induction xs ys zs rule: list_induct3) (simp_all add: numeral_2_eq_2)

lemma weave_every3:
  "length p mod 3 = 0 \<Longrightarrow>
   weave (every3 p) (every3 (drop 1 p)) (every3 (drop 2 p)) = p \<and>
   length (every3 p) = length (every3 (drop 1 p)) \<and>
   length (every3 (drop 1 p)) = length (every3 (drop 2 p))"
proof (induction p rule: every3.induct)
  case 1
  then show ?case by simp
next
  case (2 x xs)
  then obtain y z rest where xs: "xs = y # z # rest"
    by (cases xs; cases "tl xs") auto
  have "length rest mod 3 = 0"
    using 2(2) by (simp add: xs mod_Suc split: if_splits)
  then show ?case using 2(1) by (simp add: xs numeral_2_eq_2)
qed

lemma v2_tables_legal:
  assumes "selector indicator 0 = Inr ko" and "ko \<in> set legal_keys"
    and "selector indicator 4 = Inr ki" and "ki \<in> set legal_keys"
  shows "\<exists>order i0 i1 i2. v2_tables indicator = Inr (order, [i0, i1, i2]) \<and> order \<in> set permutations3"
  using lookup_ORDER_legal [OF assms(2)] lookup_INVERT_legal [OF assms(4)] assms(1,3)
  by (auto simp: v2_tables_def)

lemma upt_3: "[0..<3] = [0, 1, 2]"
  by (simp add: upt_rec numeral_eq_Suc)

lemma scramble_value:
  assumes "v2_tables indicator = Inr (order, [i0, i1, i2])" and "order \<in> set permutations3"
    and "length p0 = length p1" and "length p1 = length p2"
  shows "v2_scramble indicator [p0, p1, p2] =
    Inr (weave (invert_if i0 ([p0, p1, p2] ! (order ! 0)))
               (invert_if i1 ([p0, p1, p2] ! (order ! 1)))
               (invert_if i2 ([p0, p1, p2] ! (order ! 2))))"
proof -
  let ?ps = "[p0, p1, p2]"
  have o: "order ! 0 < 3" "order ! 1 < 3" "order ! 2 < 3"
    using assms(2) by (auto simp: permutations3_def)
  then have m: "map_all (\<lambda>i. getitem ?ps (order ! i)) [0..<3] =
      Inr [?ps ! (order ! 0), ?ps ! (order ! 1), ?ps ! (order ! 2)]"
    by (simp add: upt_3 getitem_def)
  have l: "length (?ps ! (order ! 0)) = length (?ps ! (order ! 1))"
    "length (?ps ! (order ! 1)) = length (?ps ! (order ! 2))"
    using assms(2-4) by (auto simp: permutations3_def)
  show ?thesis
    using interleave_all [of "invert_if i0 (?ps ! (order ! 0))" "invert_if i1 (?ps ! (order ! 1))"
        "invert_if i2 (?ps ! (order ! 2))"] l
    by (simp add: v2_scramble_def assms(1) m invert_parts_3 del: upt_Suc)
qed

lemma unscramble_value:
  assumes "v2_tables indicator = Inr (order, [i0, i1, i2])"
  shows "v2_unscramble indicator payload =
    Inr (unpermute order [invert_if i0 (every3 payload), invert_if i1 (every3 (drop 1 payload)),
                          invert_if i2 (every3 (drop 2 payload))])"
  by (simp add: v2_unscramble_def assms Let_def invert_parts_3 unpermute_def del: upt_Suc)

lemma unpermute_permute:
  assumes "order \<in> set permutations3"
  shows "unpermute order [[p0, p1, p2] ! (order ! 0), [p0, p1, p2] ! (order ! 1),
                          [p0, p1, p2] ! (order ! 2)] = [p0, p1, p2]"
  using assms by (auto simp: permutations3_def unpermute_def upt_3 simp del: upt_Suc)

lemma permute_unpermute:
  assumes "order \<in> set permutations3"
  shows "\<exists>q0 q1 q2. unpermute order [a, b, c] = [q0, q1, q2] \<and>
      [q0, q1, q2] ! (order ! 0) = a \<and> [q0, q1, q2] ! (order ! 1) = b \<and>
      [q0, q1, q2] ! (order ! 2) = c \<and>
      (length a = length b \<and> length b = length c \<longrightarrow> length q0 = length q1 \<and> length q1 = length q2)"
  using assms by (auto simp: permutations3_def unpermute_def upt_3 simp del: upt_Suc)

lemma unscramble_scramble:
  assumes "v2_tables indicator = Inr (order, [i0, i1, i2])" and "order \<in> set permutations3"
    and "length p0 = length p1" and "length p1 = length p2"
  shows "and_then (v2_scramble indicator [p0, p1, p2]) (v2_unscramble indicator) = Inr [p0, p1, p2]"
proof -
  let ?ps = "[p0, p1, p2]"
  let ?a = "invert_if i0 (?ps ! (order ! 0))" and ?b = "invert_if i1 (?ps ! (order ! 1))"
    and ?c = "invert_if i2 (?ps ! (order ! 2))"
  have l: "length ?a = length ?b" "length ?b = length ?c"
    using assms(2-4) by (auto simp: permutations3_def)
  have e: "every3 (weave ?a ?b ?c) = ?a" "every3 (drop 1 (weave ?a ?b ?c)) = ?b"
    "every3 (drop 2 (weave ?a ?b ?c)) = ?c"
    using every3_weave [OF l] by simp_all
  have "v2_unscramble indicator (weave ?a ?b ?c) = Inr ?ps"
    unfolding unscramble_value [OF assms(1)] e invert_if_twice
    using unpermute_permute [OF assms(2)] by simp
  then show ?thesis
    by (simp add: scramble_value [OF assms])
qed

lemma scramble_unscramble:
  assumes "v2_tables indicator = Inr (order, [i0, i1, i2])" and "order \<in> set permutations3"
    and "length payload mod 3 = 0"
  shows "and_then (v2_unscramble indicator payload) (v2_scramble indicator) = Inr payload"
proof -
  let ?a = "every3 payload" and ?b = "every3 (drop 1 payload)" and ?c = "every3 (drop 2 payload)"
  let ?pp = "[invert_if i0 ?a, invert_if i1 ?b, invert_if i2 ?c]"
  have w: "weave ?a ?b ?c = payload" "length ?a = length ?b" "length ?b = length ?c"
    using weave_every3 [OF assms(3)] by simp_all
  obtain q0 q1 q2 where q: "unpermute order ?pp = [q0, q1, q2]"
    "[q0, q1, q2] ! (order ! 0) = invert_if i0 ?a" "[q0, q1, q2] ! (order ! 1) = invert_if i1 ?b"
    "[q0, q1, q2] ! (order ! 2) = invert_if i2 ?c"
    "length q0 = length q1" "length q1 = length q2"
    using permute_unpermute [OF assms(2), of "invert_if i0 ?a" "invert_if i1 ?b" "invert_if i2 ?c"] w(2,3)
    by auto
  have "v2_scramble indicator [q0, q1, q2] = Inr payload"
    unfolding scramble_value [OF assms(1,2) q(5,6)] q(2-4) invert_if_twice w(1) ..
  then show ?thesis
    unfolding unscramble_value [OF assms(1)] q(1) by simp
qed

section \<open>Security+ 2.0: splitting and joining the rolling code\<close>

lemma dom_ORDER: "dom ORDER = set legal_keys"
  by (auto simp: ORDER_def legal_keys_def split: if_splits)

lemma dom_INVERT: "dom INVERT = set legal_keys"
  by (auto simp: INVERT_def legal_keys_def split: if_splits)

lemma encode_v2_rolling_loop:
  "k \<le> length A \<Longrightarrow>
   fst (foldl encode_v2_rolling_digit (A, r) (rev [0..<k])) = digits3 k r @ drop k A"
proof (induction k arbitrary: A r)
  case 0
  then show ?case by simp
next
  case (Suc k)
  have A: "drop k (A[k := r mod 3]) = r mod 3 # drop (Suc k) A"
    using Suc.prems by (simp add: Cons_nth_drop_Suc [symmetric])
  show ?case
    using Suc.prems Suc.IH [of "A[k := r mod 3]" "r div 3"]
    by (simp add: encode_v2_rolling_digit_def A)
qed

lemma encode_v2_rolling_value:
  assumes "0 \<le> rolling" and "rolling < 2 ^ 28"
  shows "encode_v2_rolling rolling = Inr (rolling_halves (digits3 18 (bitrev 28 rolling)))"
  using assms
  by (simp add: encode_v2_rolling_def py_int2_rev_format_b encode_v2_rolling_loop rolling_halves_def Let_def)

lemma list18:
  "length xs = 18 \<Longrightarrow>
   \<exists>x0 x1 x2 x3 x4 x5 x6 x7 x8 x9 x10 x11 x12 x13 x14 x15 x16 x17.
     xs = [x0, x1, x2, x3, x4, x5, x6, x7, x8, x9, x10, x11, x12, x13, x14, x15, x16, x17]"
  by (simp add: numeral_eq_Suc length_Suc_conv) blast

lemma rolling_halves_join:
  assumes "length b3 = 18" and "rolling_halves b3 = (rolling1, rolling2)"
  shows "drop 8 rolling2 @ drop 8 rolling1 @ slice rolling2 4 8 @ slice rolling1 4 8 @
         take 4 rolling2 @ take 4 rolling1 = b3"
    and "length rolling1 = 9" and "length rolling2 = 9"
    and "set rolling1 \<subseteq> set b3" and "set rolling2 \<subseteq> set b3"
proof -
  obtain x0 x1 x2 x3 x4 x5 x6 x7 x8 x9 x10 x11 x12 x13 x14 x15 x16 x17
    where b: "b3 = [x0, x1, x2, x3, x4, x5, x6, x7, x8, x9, x10, x11, x12, x13, x14, x15, x16, x17]"
    using list18 [OF assms(1)] by blast
  have r: "rolling1 = [x14, x15, x16, x17, x6, x7, x8, x9, x1]"
    "rolling2 = [x10, x11, x12, x13, x2, x3, x4, x5, x0]"
    using assms(2) by (simp_all add: b rolling_halves_def slice_def)
  show "drop 8 rolling2 @ drop 8 rolling1 @ slice rolling2 4 8 @ slice rolling1 4 8 @
         take 4 rolling2 @ take 4 rolling1 = b3"
    by (simp add: r b slice_def)
  show "length rolling1 = 9" "length rolling2 = 9" by (simp_all add: r)
  show "set rolling1 \<subseteq> set b3" "set rolling2 \<subseteq> set b3" by (auto simp: r b)
qed

lemma foldl_horner3: "foldl (\<lambda>rolling digit. rolling * 3 + digit) 0 ds = horner3 ds"
proof -
  have "(\<lambda>rolling digit. rolling * 3 + digit) = (\<lambda>v d. 3 * v + (d::int))"
    by (intro ext) simp
  then show ?thesis by (simp add: horner3_def)
qed

lemma decode_v2_rolling_value:
  assumes "0 \<le> rolling" and "rolling < 2 ^ 28"
    and "rolling_halves (digits3 18 (bitrev 28 rolling)) = (rolling1, rolling2)"
  shows "decode_v2_rolling rolling1 rolling2 = Inr rolling"
proof -
  let ?b = "bitrev 28 rolling"
  have b: "0 \<le> ?b" "?b < 2 ^ 28" "?b < 3 ^ 18"
    using bitrev_bounds [of 28 rolling] by simp_all
  have j: "drop 8 rolling2 @ drop 8 rolling1 @ slice rolling2 4 8 @ slice rolling1 4 8 @
         take 4 rolling2 @ take 4 rolling1 = digits3 18 ?b"
    using rolling_halves_join(1) [OF _ assms(3)] by simp
  have "py_int2 (rev (format_b 28 ?b)) = Inr rolling"
    using assms b by (simp add: py_int2_rev_format_b bitrev_bitrev)
  then show ?thesis
    using b by (simp add: decode_v2_rolling_def Let_def j foldl_horner3 horner3_digits3)
qed

section \<open>Security+ 2.0: bit pairs and indicators\<close>

lemma trit_bits: "is_trit d \<Longrightarrow> is_bit (drop_bit 1 d) \<and> is_bit (d AND 1) \<and> push_bit 1 (drop_bit 1 d) OR (d AND 1) = d"
  by (auto simp: is_trit_def is_bit_def)

lemma length_digit_bits [simp]: "length (digit_bits ds) = 2 * length ds"
  by (induction ds) (simp_all add: digit_bits_def)

lemma digit_bits_snoc: "digit_bits (ds @ [d]) = digit_bits ds @ [drop_bit 1 d, d AND 1]"
  by (simp add: digit_bits_def)

lemma digit_bits_append: "digit_bits (xs @ ys) = digit_bits xs @ digit_bits ys"
  by (simp add: digit_bits_def)

lemma digit_bits_bits: "list_all is_trit ds \<Longrightarrow> list_all is_bit (digit_bits ds)"
proof (induction ds)
  case Nil
  then show ?case by (simp add: digit_bits_def)
next
  case (Cons d ds)
  then show ?case using trit_bits [of d] by (simp add: digit_bits_def)
qed

lemma digit_bits_nth:
  "k < length ds \<Longrightarrow> digit_bits ds ! (2 * k) = drop_bit 1 (ds ! k) \<and>
     digit_bits ds ! Suc (2 * k) = ds ! k AND 1"
proof (induction ds arbitrary: k)
  case Nil
  then show ?case by simp
next
  case (Cons d ds)
  then show ?case by (cases k) (simp_all add: digit_bits_def)
qed

lemma range2_even: "range2 (2 * n) = map (\<lambda>k. 2 * k) [0..<n]"
  by (simp add: range2_def)

lemma append_pair_loop:
  assumes "list_all is_trit ds"
  shows "n \<le> length ds \<Longrightarrow>
    for_each (append_pair (digit_bits ds)) (map (\<lambda>k. 2 * k) [0..<n]) acc = Inr (acc @ take n ds)"
proof (induction n)
  case 0
  then show ?case by simp
next
  case (Suc n)
  then have n: "n < length ds" by simp
  then have t: "is_trit (ds ! n)" using assms by (simp add: list_all_length)
  have "append_pair (digit_bits ds) rolling (2 * n) = Inr (rolling @ [ds ! n])" for rolling
    using n digit_bits_nth [OF n] trit_bits [OF t]
    by (simp add: append_pair_def getitem_def)
  then show ?case
    using Suc n by (simp add: for_each_append for_each_single take_Suc_conv_app_nth)
qed

lemma append_pairs:
  "list_all is_trit ds \<Longrightarrow>
   for_each (append_pair (digit_bits ds)) (range2 (length (digit_bits ds))) acc = Inr (acc @ ds)"
  using append_pair_loop [of ds "length ds" acc] by (simp add: range2_even)

lemma length_weave [simp]:
  "length xs = length ys \<Longrightarrow> length ys = length zs \<Longrightarrow> length (weave xs ys zs) = 3 * length xs"
  by (induction xs ys zs rule: list_induct3) simp_all

lemma weave_bits:
  "list_all P xs \<Longrightarrow> list_all P ys \<Longrightarrow> list_all P zs \<Longrightarrow> list_all P (weave xs ys zs)"
  by (induction xs ys zs rule: weave.induct) simp_all

lemma invert_if_bits: "list_all is_bit xs \<Longrightarrow> list_all is_bit (invert_if b xs)"
  by (induction xs) (auto simp: invert_if_def is_bit_def)

lemma list4: "length xs = 4 \<Longrightarrow> \<exists>a b c d. xs = [a, b, c, d]"
  by (simp add: numeral_eq_Suc length_Suc_conv) blast

lemma trit_key_legal:
  "is_trit a \<Longrightarrow> is_trit b \<Longrightarrow>
   push_bit 3 (drop_bit 1 a) OR push_bit 2 (a AND 1) OR push_bit 1 (drop_bit 1 b) OR (b AND 1)
     \<in> set legal_keys"
  by (auto simp: is_trit_def legal_keys_def)

lemma indicator_legal:
  assumes "length ds = 4" and "list_all is_trit ds"
  shows "\<exists>order i0 i1 i2. v2_tables (digit_bits ds) = Inr (order, [i0, i1, i2]) \<and>
           order \<in> set permutations3"
proof -
  obtain a b c d where ds: "ds = [a, b, c, d]" using list4 [OF assms(1)] by blast
  then have t: "is_trit a" "is_trit b" "is_trit c" "is_trit d" using assms(2) by simp_all
  let ?i = "digit_bits ds"
  have s: "selector ?i 0 = Inr (push_bit 3 (drop_bit 1 a) OR push_bit 2 (a AND 1) OR
          push_bit 1 (drop_bit 1 b) OR (b AND 1))"
    "selector ?i 4 = Inr (push_bit 3 (drop_bit 1 c) OR push_bit 2 (c AND 1) OR
          push_bit 1 (drop_bit 1 d) OR (d AND 1))"
    by (simp_all add: ds digit_bits_def selector_def getitem_def)
  show ?thesis
    by (rule v2_tables_legal [OF s(1) trit_key_legal [OF t(1,2)] s(2) trit_key_legal [OF t(3,4)]])
qed

section \<open>Security+ 2.0: one packet half\<close>

lemma scramble_ok:
  assumes "v2_tables indicator = Inr (order, [i0, i1, i2])" and "order \<in> set permutations3"
    and "length p0 = length p1" and "length p1 = length p2"
  shows "\<exists>payload. v2_scramble indicator [p0, p1, p2] = Inr payload \<and>
           length payload = 3 * length p0 \<and>
           v2_unscramble indicator payload = Inr [p0, p1, p2] \<and>
           (list_all is_bit p0 \<and> list_all is_bit p1 \<and> list_all is_bit p2 \<longrightarrow>
              list_all is_bit payload)"
proof -
  let ?ps = "[p0, p1, p2]"
  let ?a = "invert_if i0 (?ps ! (order ! 0))" and ?b = "invert_if i1 (?ps ! (order ! 1))"
    and ?c = "invert_if i2 (?ps ! (order ! 2))"
  have s: "v2_scramble indicator ?ps = Inr (weave ?a ?b ?c)"
    by (rule scramble_value [OF assms])
  have l: "length ?a = length ?b" "length ?b = length ?c" "length ?a = length p0"
    using assms(2-4) by (auto simp: permutations3_def)
  have u: "v2_unscramble indicator (weave ?a ?b ?c) = Inr ?ps"
    using unscramble_scramble [OF assms] by (simp add: s)
  have b: "list_all is_bit (weave ?a ?b ?c)"
    if "list_all is_bit p0 \<and> list_all is_bit p1 \<and> list_all is_bit p2"
  proof -
    have "list_all is_bit (?ps ! (order ! 0))" "list_all is_bit (?ps ! (order ! 1))"
      "list_all is_bit (?ps ! (order ! 2))"
      using that assms(2) by (auto simp: permutations3_def)
    then show ?thesis by (intro weave_bits invert_if_bits)
  qed
  show ?thesis
    using s u b l by simp
qed

lemma trits_no_3: "list_all is_trit ds \<Longrightarrow> 3 \<notin> set ds"
  by (auto simp: list_all_iff is_trit_def)

lemma decode_half_parts_0:
  assumes "v2_unscramble indicator payload = Inr [q0, q1, q2]" and "length payload = 30"
    and "indicator = digit_bits i4" and "list_all is_trit i4"
    and "q2 = digit_bits rest" and "list_all is_trit rest"
  shows "decode_v2_half_parts 0 indicator payload = Inr (i4 @ rest, take 10 q0 @ take 10 q1, None)"
proof -
  have "3 \<notin> set (i4 @ rest)"
    using assms(4,6) by (intro trits_no_3) simp
  then show ?thesis
    using assms(1,2) append_pairs [OF assms(4), of "[]"] append_pairs [OF assms(6), of i4]
    by (simp add: decode_v2_half_parts_def assms(3,5) Let_def)
qed

lemma decode_half_parts_1:
  assumes "v2_unscramble indicator payload = Inr [q0, q1, q2]" and "length payload = 54"
    and "indicator = digit_bits i4" and "list_all is_trit i4"
    and "q2 = digit_bits rest" and "list_all is_trit rest"
    and "take 4 (i4 @ rest) = drop (length (i4 @ rest) - 4) (i4 @ rest)"
  shows "decode_v2_half_parts 1 indicator payload =
    Inr (take (length (i4 @ rest) - 4) (i4 @ rest), take 10 q0 @ take 10 q1,
         Some (drop 10 q0 @ drop 10 q1))"
proof -
  have "3 \<notin> set (i4 @ rest)"
    using assms(4,6) by (intro trits_no_3) simp
  then show ?thesis
    using assms(1,2,7) append_pairs [OF assms(4), of "[]"] append_pairs [OF assms(6), of i4]
    by (simp add: decode_v2_half_parts_def assms(3,5) Let_def)
qed

lemma list_all_take: "list_all P xs \<Longrightarrow> list_all P (take n xs)"
  by (auto simp: list_all_iff dest: in_set_takeD)

lemma list_all_drop: "list_all P xs \<Longrightarrow> list_all P (drop n xs)"
  by (auto simp: list_all_iff dest: in_set_dropD)

lemma half_parts_round_trip_0:
  assumes "length r = 9" and "list_all is_trit r" and "length f = 20"
  shows "\<exists>indicator payload.
     encode_v2_half_parts r f None = Inr (0, indicator, payload) \<and>
     length indicator = 8 \<and> length payload = 30 \<and>
     decode_v2_half_parts 0 indicator payload = Inr (r, f, None) \<and>
     (list_all is_bit f \<longrightarrow> list_all is_bit indicator \<and> list_all is_bit payload)"
proof -
  let ?i = "digit_bits (take 4 r)"
  let ?p0 = "take 10 f" and ?p1 = "drop 10 f" and ?p2 = "digit_bits (drop 4 r)"
  have t: "list_all is_trit (take 4 r)" "list_all is_trit (drop 4 r)"
    using assms(2) by (simp_all add: list_all_take list_all_drop)
  obtain order i0 i1 i2 where tb: "v2_tables ?i = Inr (order, [i0, i1, i2])"
    and o: "order \<in> set permutations3"
    using indicator_legal [of "take 4 r"] assms(1) t(1) by auto
  have l: "length ?p0 = length ?p1" "length ?p1 = length ?p2"
    using assms(1,3) by simp_all
  obtain payload where p: "v2_scramble ?i [?p0, ?p1, ?p2] = Inr payload"
    "length payload = 3 * length ?p0" "v2_unscramble ?i payload = Inr [?p0, ?p1, ?p2]"
    "list_all is_bit ?p0 \<and> list_all is_bit ?p1 \<and> list_all is_bit ?p2 \<longrightarrow> list_all is_bit payload"
    using scramble_ok [OF tb o l] by blast
  have e: "encode_v2_half_parts r f None = Inr (0, ?i, payload)"
    by (simp add: encode_v2_half_parts_def Let_def p(1))
  have "decode_v2_half_parts 0 ?i payload =
      Inr (take 4 r @ drop 4 r, take 10 ?p0 @ take 10 ?p1, None)"
    using p(2) assms(3) by (intro decode_half_parts_0 [OF p(3) _ refl t(1) refl t(2)]) simp
  then have d: "decode_v2_half_parts 0 ?i payload = Inr (r, f, None)"
    using assms(3) by simp
  have b: "list_all is_bit ?i \<and> list_all is_bit payload" if "list_all is_bit f"
    using that p(4) t by (simp add: digit_bits_bits list_all_take list_all_drop)
  show ?thesis
    using e d b p(2) assms(1,3) by auto
qed

lemma half_parts_round_trip_1:
  assumes "length r = 9" and "list_all is_trit r" and "length f = 20" and "length ds = 16"
  shows "\<exists>indicator payload.
     encode_v2_half_parts r f (Some ds) = Inr (1, indicator, payload) \<and>
     length indicator = 8 \<and> length payload = 54 \<and>
     decode_v2_half_parts 1 indicator payload = Inr (r, f, Some ds) \<and>
     (list_all is_bit f \<and> list_all is_bit ds \<longrightarrow> list_all is_bit indicator \<and> list_all is_bit payload)"
proof -
  let ?i = "digit_bits (take 4 r)"
  let ?p0 = "take 10 f @ take 8 ds" and ?p1 = "drop 10 f @ drop 8 ds"
    and ?p2 = "digit_bits (drop 4 r @ take 4 r)"
  have t: "list_all is_trit (take 4 r)" "list_all is_trit (drop 4 r @ take 4 r)"
    using assms(2) by (simp_all add: list_all_take list_all_drop)
  obtain order i0 i1 i2 where tb: "v2_tables ?i = Inr (order, [i0, i1, i2])"
    and o: "order \<in> set permutations3"
    using indicator_legal [of "take 4 r"] assms(1) t(1) by auto
  have l: "length ?p0 = length ?p1" "length ?p1 = length ?p2"
    using assms(1,3,4) by simp_all
  obtain payload where p: "v2_scramble ?i [?p0, ?p1, ?p2] = Inr payload"
    "length payload = 3 * length ?p0" "v2_unscramble ?i payload = Inr [?p0, ?p1, ?p2]"
    "list_all is_bit ?p0 \<and> list_all is_bit ?p1 \<and> list_all is_bit ?p2 \<longrightarrow> list_all is_bit payload"
    using scramble_ok [OF tb o l] by blast
  have e: "encode_v2_half_parts r f (Some ds) = Inr (1, ?i, payload)"
    using p(1) by (simp add: encode_v2_half_parts_def Let_def digit_bits_append)
  let ?rolling = "take 4 r @ drop 4 r @ take 4 r"
  have r: "take 4 ?rolling = drop (length ?rolling - 4) ?rolling"
    "take (length ?rolling - 4) ?rolling = r"
    using assms(1) by simp_all
  have "decode_v2_half_parts 1 ?i payload =
      Inr (take (length ?rolling - 4) ?rolling, take 10 ?p0 @ take 10 ?p1,
           Some (drop 10 ?p0 @ drop 10 ?p1))"
    using p(2) assms(3,4) r(1)
    by (intro decode_half_parts_1 [OF p(3) _ refl t(1) refl t(2)]) simp_all
  then have d: "decode_v2_half_parts 1 ?i payload = Inr (r, f, Some ds)"
    unfolding r(2) using assms(3,4) by simp
  have b: "list_all is_bit ?i \<and> list_all is_bit payload"
    if "list_all is_bit f \<and> list_all is_bit ds"
    using that p(4) t by (simp add: digit_bits_bits list_all_take list_all_drop)
  show ?thesis
    using e d b p(2) assms(1,3,4) by auto
qed

section \<open>Security+ 2.0: the round trip over the air\<close>

lemma map_all_py_int_char:
  "list_all is_bit bs \<Longrightarrow> map_all py_int_char (map bit_char bs) = Inr bs"
  by (induction bs) (auto simp: is_bit_def bit_char_def py_int_char_def)

lemma bits_of_int_value:
  "0 \<le> n \<Longrightarrow> n < 2 ^ w \<Longrightarrow> 0 < w \<Longrightarrow> bits_of_int w n = Inr (bits_be w n)"
  by (simp add: bits_of_int_def format_b_def format_b_bits map_all_py_int_char)

lemma py_str_bit: "is_bit b \<Longrightarrow> py_str b = [bit_char b]"
  by (auto simp: is_bit_def py_str_def dec_digits.simps [of 0] dec_digits.simps [of 1]
      digit_char_def bit_char_def)

lemma concat_py_str_bits: "list_all is_bit bs \<Longrightarrow> concat (map py_str bs) = map bit_char bs"
  by (induction bs) (simp_all add: py_str_bit)

lemma int_of_bits_value:
  "list_all is_bit bs \<Longrightarrow> bs \<noteq> [] \<Longrightarrow> int_of_bits bs = Inr (value_be bs)"
  by (simp add: int_of_bits_def concat_py_str_bits py_int2_bits)

lemma int_of_bits_bits_be:
  assumes "0 \<le> n" and "n < 2 ^ w" and "0 < w"
  shows "int_of_bits (bits_be w n) = Inr n"
proof -
  have "length (bits_be w n) \<noteq> 0" using assms(3) by simp
  then have "bits_be w n \<noteq> []" by (simp only: length_0_conv not_False_eq_True)
  then show ?thesis
    using assms by (simp add: int_of_bits_value value_be_bits_be)
qed

lemma rolling_halves_trits:
  assumes "rolling_halves (digits3 18 b) = (rolling1, rolling2)"
  shows "length rolling1 = 9 \<and> list_all is_trit rolling1 \<and>
         length rolling2 = 9 \<and> list_all is_trit rolling2"
proof -
  have "set rolling1 \<subseteq> set (digits3 18 b)" "set rolling2 \<subseteq> set (digits3 18 b)"
    by (rule rolling_halves_join(4,5) [OF _ assms]; simp)+
  moreover have "list_all is_trit (digits3 18 b)" by simp
  ultimately have "list_all is_trit rolling1" "list_all is_trit rolling2"
    unfolding list_all_iff by blast+
  then show ?thesis
    using rolling_halves_join(2,3) [OF _ assms] by simp
qed

lemma half_round_trip_0:
  assumes "length r = 9" and "list_all is_trit r" and "length f = 20"
  shows "\<exists>half. encode_v2_half r f None = Inr half \<and> length half = 40 \<and>
     decode_v2_half half = Inr (r, f, None) \<and> (list_all is_bit f \<longrightarrow> list_all is_bit half)"
proof -
  obtain indicator payload where h:
    "encode_v2_half_parts r f None = Inr (0, indicator, payload)"
    "length indicator = 8" "length payload = 30"
    "decode_v2_half_parts 0 indicator payload = Inr (r, f, None)"
    "list_all is_bit f \<longrightarrow> list_all is_bit indicator \<and> list_all is_bit payload"
    using half_parts_round_trip_0 [OF assms] by blast
  let ?half = "[0, 0] @ indicator @ payload"
  have "encode_v2_half r f None = Inr ?half"
    by (simp add: encode_v2_half_def h(1))
  moreover have "decode_v2_half ?half = Inr (r, f, None)"
    using h(2,4) by (simp add: decode_v2_half_def getitem_def slice_def Let_def)
  moreover have "list_all is_bit f \<longrightarrow> list_all is_bit ?half"
    using h(5) by (simp add: is_bit_def)
  ultimately show ?thesis using h(2,3) by simp
qed

lemma half_round_trip_1:
  assumes "length r = 9" and "list_all is_trit r" and "length f = 20" and "length ds = 16"
  shows "\<exists>half. encode_v2_half r f (Some ds) = Inr half \<and> length half = 64 \<and>
     decode_v2_half half = Inr (r, f, Some ds) \<and>
     (list_all is_bit f \<and> list_all is_bit ds \<longrightarrow> list_all is_bit half)"
proof -
  obtain indicator payload where h:
    "encode_v2_half_parts r f (Some ds) = Inr (1, indicator, payload)"
    "length indicator = 8" "length payload = 54"
    "decode_v2_half_parts 1 indicator payload = Inr (r, f, Some ds)"
    "list_all is_bit f \<and> list_all is_bit ds \<longrightarrow> list_all is_bit indicator \<and> list_all is_bit payload"
    using half_parts_round_trip_1 [OF assms] by blast
  let ?half = "[0, 1] @ indicator @ payload"
  have "encode_v2_half r f (Some ds) = Inr ?half"
    by (simp add: encode_v2_half_def h(1))
  moreover have "decode_v2_half ?half = Inr (r, f, Some ds)"
    using h(2,4) by (simp add: decode_v2_half_def getitem_def slice_def Let_def)
  moreover have "list_all is_bit f \<and> list_all is_bit ds \<longrightarrow> list_all is_bit ?half"
    using h(5) by (simp add: is_bit_def)
  ultimately show ?thesis using h(2,3) by simp
qed

lemma decode_encode_v2_None:
  assumes "0 \<le> rolling" and "rolling < 2 ^ 28" and "0 \<le> fixed" and "fixed < 2 ^ 40"
  shows "\<exists>code. encode_v2 rolling fixed None = Inr code \<and> length code = 80 \<and>
           list_all is_bit code \<and> decode_v2 code = Inr (rolling, fixed, None)"
proof -
  obtain r1 r2 where rh: "rolling_halves (digits3 18 (bitrev 28 rolling)) = (r1, r2)"
    by (cases "rolling_halves (digits3 18 (bitrev 28 rolling))")
  have r: "length r1 = 9" "list_all is_trit r1" "length r2 = 9" "list_all is_trit r2"
    using rolling_halves_trits [OF rh] by simp_all
  let ?fb = "bits_be 40 fixed"
  obtain half1 where h1: "encode_v2_half r1 (take 20 ?fb) None = Inr half1" "length half1 = 40"
    "decode_v2_half half1 = Inr (r1, take 20 ?fb, None)" "list_all is_bit half1"
    using half_round_trip_0 [OF r(1,2), of "take 20 ?fb"] by (auto simp: list_all_take)
  obtain half2 where h2: "encode_v2_half r2 (drop 20 ?fb) None = Inr half2" "length half2 = 40"
    "decode_v2_half half2 = Inr (r2, drop 20 ?fb, None)" "list_all is_bit half2"
    using half_round_trip_0 [OF r(3,4), of "drop 20 ?fb"] by (auto simp: list_all_drop)
  have e: "encode_v2 rolling fixed None = Inr (half1 @ half2)"
    using assms
    by (simp add: encode_v2_def v2_check_limits_def encode_v2_rolling_value rh bits_of_int_value
        Let_def h1(1) h2(1))
  have "decode_v2 (half1 @ half2) = Inr (rolling, fixed, None)"
    using assms
    by (simp add: decode_v2_def Let_def h1(2,3) h2(2,3) decode_v2_rolling_value [OF _ _ rh]
        int_of_bits_bits_be)
  then show ?thesis using e h1(2,4) h2(2,4) by simp
qed

lemma decode_encode_v2_Some:
  assumes "0 \<le> rolling" and "rolling < 2 ^ 28" and "0 \<le> fixed" and "fixed < 2 ^ 40"
    and "0 \<le> d" and "d < 2 ^ 32"
  shows "\<exists>code. encode_v2 rolling fixed (Some d) = Inr code \<and> length code = 128 \<and>
           list_all is_bit code \<and> decode_v2 code = Inr (rolling, fixed, Some d)"
proof -
  obtain r1 r2 where rh: "rolling_halves (digits3 18 (bitrev 28 rolling)) = (r1, r2)"
    by (cases "rolling_halves (digits3 18 (bitrev 28 rolling))")
  have r: "length r1 = 9" "list_all is_trit r1" "length r2 = 9" "list_all is_trit r2"
    using rolling_halves_trits [OF rh] by simp_all
  let ?fb = "bits_be 40 fixed" and ?db = "bits_be 32 d"
  obtain half1 where h1:
    "encode_v2_half r1 (take 20 ?fb) (Some (take 16 ?db)) = Inr half1" "length half1 = 64"
    "decode_v2_half half1 = Inr (r1, take 20 ?fb, Some (take 16 ?db))" "list_all is_bit half1"
    using half_round_trip_1 [OF r(1,2), of "take 20 ?fb" "take 16 ?db"] by (auto simp: list_all_take)
  obtain half2 where h2:
    "encode_v2_half r2 (drop 20 ?fb) (Some (drop 16 ?db)) = Inr half2" "length half2 = 64"
    "decode_v2_half half2 = Inr (r2, drop 20 ?fb, Some (drop 16 ?db))" "list_all is_bit half2"
    using half_round_trip_1 [OF r(3,4), of "drop 20 ?fb" "drop 16 ?db"] by (auto simp: list_all_drop)
  have e: "encode_v2 rolling fixed (Some d) = Inr (half1 @ half2)"
    using assms
    by (simp add: encode_v2_def v2_check_limits_def encode_v2_rolling_value rh bits_of_int_value
        Let_def h1(1) h2(1))
  have "decode_v2 (half1 @ half2) = Inr (rolling, fixed, Some d)"
    using assms
    by (simp add: decode_v2_def Let_def h1(2,3) h2(2,3) decode_v2_rolling_value [OF _ _ rh]
        int_of_bits_bits_be)
  then show ?thesis using e h1(2,4) h2(2,4) by simp
qed

section \<open>Security+ 2.0: the round trip over the wire\<close>

lemma upt_8: "[0..<8] = [0, 1, 2, 3, 4, 5, 6, 7]"
  by (simp add: upt_rec numeral_eq_Suc)

lemma pack8_explicit:
  "pack8 [b0, b1, b2, b3, b4, b5, b6, b7] =
     (((((((push_bit 7 b0 OR push_bit 6 b1) OR push_bit 5 b2) OR push_bit 4 b3) OR
     push_bit 3 b4) OR push_bit 2 b5) OR push_bit 1 b6) OR b7)"
  by (simp add: pack8_def upt_8 del: upt_Suc)

lemma byte_bits_explicit:
  "byte_bits w = [drop_bit 7 (uint w) AND 1, drop_bit 6 (uint w) AND 1, drop_bit 5 (uint w) AND 1,
     drop_bit 4 (uint w) AND 1, drop_bit 3 (uint w) AND 1, drop_bit 2 (uint w) AND 1,
     drop_bit 1 (uint w) AND 1, drop_bit 0 (uint w) AND 1]"
  by (simp add: byte_bits_def upt_8 del: upt_Suc)

lemma byte8:
  assumes "is_bit b0" "is_bit b1" "is_bit b2" "is_bit b3" "is_bit b4" "is_bit b5" "is_bit b6" "is_bit b7"
  shows "byte_bits (word_of_int (pack8 [b0, b1, b2, b3, b4, b5, b6, b7])) =
           [b0, b1, b2, b3, b4, b5, b6, b7] \<and>
         0 \<le> pack8 [b0, b1, b2, b3, b4, b5, b6, b7] \<and> pack8 [b0, b1, b2, b3, b4, b5, b6, b7] < 256"
  using assms unfolding pack8_explicit byte_bits_explicit is_bit_def
  by (elim disjE; simp)

lemma list8_bits:
  assumes "length c = 8" and "list_all is_bit c"
  shows "byte_bits (word_of_int (pack8 c)) = c \<and> 0 \<le> pack8 c \<and> pack8 c < 256"
proof -
  obtain b0 b1 b2 b3 b4 b5 b6 b7 where c: "c = [b0, b1, b2, b3, b4, b5, b6, b7]"
    using list8 [OF assms(1)] by blast
  show ?thesis
    unfolding c using assms(2) by (intro byte8) (simp_all add: c)
qed

lemma pack_byte_chunk:
  assumes "n * 8 + 8 \<le> length bs"
  shows "pack_byte bs n = pack8 (take 8 (drop (n * 8) bs))"
  unfolding pack_byte_def pack8_def
  using assms by (intro foldl_cong refl) simp

lemma unpack_pack:
  assumes "list_all is_bit bs"
  shows "8 * N \<le> length bs \<Longrightarrow>
    concat (map (\<lambda>n. byte_bits (word_of_int (pack_byte bs n))) [0..<N]) = take (8 * N) bs \<and>
    list_all (\<lambda>x. 0 \<le> x \<and> x < 256) (map (pack_byte bs) [0..<N])"
proof (induction N)
  case 0
  then show ?case by simp
next
  case (Suc N)
  let ?c = "take 8 (drop (N * 8) bs)"
  have l: "length ?c = 8" using Suc.prems by simp
  have b: "list_all is_bit ?c" using assms by (simp add: list_all_take list_all_drop)
  have p: "pack_byte bs N = pack8 ?c"
    using Suc.prems by (intro pack_byte_chunk) simp
  have "8 * Suc N = 8 * N + 8" by simp
  then have "take (8 * Suc N) bs = take (8 * N) bs @ take 8 (drop (8 * N) bs)"
    by (simp only: take_add)
  then have t: "take (8 * Suc N) bs = take (8 * N) bs @ ?c"
    by (simp only: mult.commute)
  show ?case
    using Suc list8_bits [OF l b] t by (simp add: p)
qed

lemma wireline_half_round_trip:
  assumes "length r = 9" and "list_all is_trit r" and "length f = 20" and "list_all is_bit f"
    and "length ds = 16" and "list_all is_bit ds"
  shows "\<exists>half. encode_wireline_half r f (Some ds) = Inr half \<and> length half = 64 \<and>
     list_all is_bit half \<and> decode_wireline_half half = Inr (r, f, Some ds)"
proof -
  obtain indicator payload where h:
    "encode_v2_half_parts r f (Some ds) = Inr (1, indicator, payload)"
    "length indicator = 8" "length payload = 54"
    "decode_v2_half_parts 1 indicator payload = Inr (r, f, Some ds)"
    "list_all is_bit indicator" "list_all is_bit payload"
    using half_parts_round_trip_1 [OF assms(1,2,3,5)] assms(4,6) by blast
  let ?half = "indicator @ [0, 0] @ payload"
  have "encode_wireline_half r f (Some ds) = Inr ?half"
    by (simp add: encode_wireline_half_def h(1))
  moreover have "decode_wireline_half ?half = Inr (r, f, Some ds)"
    using h(2,4) by (simp add: decode_wireline_half_def slice_def Let_def)
  moreover have "list_all is_bit ?half"
    using h(5,6) by (simp add: is_bit_def)
  ultimately show ?thesis using h(2,3) by simp
qed

lemma decode_encode_wireline:
  assumes "0 \<le> rolling" and "rolling < 2 ^ 28" and "0 \<le> fixed" and "fixed < 2 ^ 40"
    and "0 \<le> d" and "d < 2 ^ 32"
  shows "\<exists>packet. encode_wireline rolling fixed (Some d) = Inr packet \<and> length packet = 19 \<and>
           decode_wireline (PyBytes packet) = Inr (rolling, fixed, d)"
proof -
  obtain r1 r2 where rh: "rolling_halves (digits3 18 (bitrev 28 rolling)) = (r1, r2)"
    by (cases "rolling_halves (digits3 18 (bitrev 28 rolling))")
  have r: "length r1 = 9" "list_all is_trit r1" "length r2 = 9" "list_all is_trit r2"
    using rolling_halves_trits [OF rh] by simp_all
  let ?fb = "bits_be 40 fixed" and ?db = "bits_be 32 d"
  obtain half1 where h1:
    "encode_wireline_half r1 (take 20 ?fb) (Some (take 16 ?db)) = Inr half1" "length half1 = 64"
    "list_all is_bit half1"
    "decode_wireline_half half1 = Inr (r1, take 20 ?fb, Some (take 16 ?db))"
    using wireline_half_round_trip [OF r(1,2), of "take 20 ?fb" "take 16 ?db"]
    by (auto simp: list_all_take)
  obtain half2 where h2:
    "encode_wireline_half r2 (drop 20 ?fb) (Some (drop 16 ?db)) = Inr half2" "length half2 = 64"
    "list_all is_bit half2"
    "decode_wireline_half half2 = Inr (r2, drop 20 ?fb, Some (drop 16 ?db))"
    using wireline_half_round_trip [OF r(3,4), of "drop 20 ?fb" "drop 16 ?db"]
    by (auto simp: list_all_drop)
  let ?bits = "half1 @ half2"
  let ?packet = "[0x55, 0x01, 0x00] @ map (pack_byte ?bits) [0..<16]"
  have bits: "list_all is_bit ?bits" "8 * 16 \<le> length ?bits"
    using h1(2,3) h2(2,3) by simp_all
  have u: "concat (map (\<lambda>n. byte_bits (word_of_int (pack_byte ?bits n))) [0..<16]) = ?bits"
    "list_all (\<lambda>x. 0 \<le> x \<and> x < 256) (map (pack_byte ?bits) [0..<16])"
    using unpack_pack [OF bits] h1(2) h2(2) by simp_all
  have pb: "py_bytes ?packet = Inr (map word_of_int ?packet)"
    using u(2) by (simp add: py_bytes_def)
  have e: "encode_wireline rolling fixed (Some d) = Inr (map word_of_int ?packet)"
    using assms h1(2) h2(2) pb
    by (simp add: encode_wireline_def v2_check_limits_def encode_v2_rolling_value rh
        bits_of_int_value Let_def h1(1) h2(1) del: upt_Suc map_append)
  have cb: "concat (map byte_bits (drop 3 (map word_of_int ?packet))) = ?bits"
    using u(1) by (simp add: comp_def del: upt_Suc)
  have "decode_wireline (PyBytes (map word_of_int ?packet)) = Inr (rolling, fixed, d)"
    unfolding decode_wireline_def py_object.case cb Let_def
    using assms
    by (simp add: h1(2,4) h2(2,4) decode_v2_rolling_value [OF _ _ rh] int_of_bits_bits_be
        del: upt_Suc)
  then show ?thesis using e by (auto simp del: upt_Suc)
qed

section \<open>Security+ (v1): the round trip\<close>

lemma decode_encode_example: "and_then (encode 123456789 1000) decode = Inr (123456788, 1000)"
  by code_simp

text \<open>
  Claim C2. For every rolling code below \<open>2^32\<close> and every fixed code from 0 to below
  \<open>3^20\<close> (a fixed code is an unsigned integer), \<open>encode\<close> succeeds and \<open>decode\<close> of
  its result returns \<open>(rolling & 0xFFFFFFFE, fixed)\<close>: the fixed code and every bit of
  the rolling code but bit 0, which \<open>encode\<close> clears, come back.
\<close>

theorem decode_encode:
  assumes "rolling < 2 ^ 32" and "0 \<le> fixed" and "fixed < 3 ^ 20"
  shows "and_then (encode rolling fixed) decode = Inr (rolling AND 0xfffffffe, fixed)"
proof -
  let ?m = "rolling AND 0xfffffffe"
  let ?rd = "digits3 20 (bitrev 32 ?m)" and ?fd = "digits3 20 fixed"
  have m: "0 \<le> ?m" "?m < 2 ^ 32"
    using AND_upper2 [of "0xfffffffe" rolling] by simp_all
  have "even ?m" by (simp add: even_and_iff)
  then have "bitrev 32 ?m < 2 ^ (32 - 1)" by (rule bitrev_even) simp
  then have b: "0 \<le> bitrev 32 ?m" "bitrev 32 ?m < 3 ^ 20" "bitrev 32 ?m < 2 ^ 32"
    using bitrev_bounds [of 32 ?m] by simp_all
  have "dec_state (snd (enc_state ?rd ?fd 20)) 20 =
      Inr (horner3 (take 20 ?rd), horner3 (take 20 ?fd), fst (enc_state ?rd ?fd 20))"
    by (rule dec_state_enc_state [where n = 20]) simp_all
  then have "dec_state (snd (enc_state ?rd ?fd 20)) 20 =
      Inr (bitrev 32 ?m, fixed, fst (enc_state ?rd ?fd 20))"
    using assms b by (simp add: horner3_digits3)
  moreover have "py_int2 (rev (format_b 32 (bitrev 32 ?m))) = Inr ?m"
    using b m by (simp add: py_int2_rev_format_b bitrev_bitrev)
  ultimately show ?thesis
    using assms by (simp add: encode_value decode_dec_state)
qed

theorem decode_encode_witness:
  "(4000000001::int) < 2 ^ 32 \<and> (0::int) \<le> 3486784400 \<and> (3486784400::int) < 3 ^ 20 \<and>
   and_then (encode 4000000001 3486784400) decode = Inr (4000000001 AND 0xfffffffe, 3486784400)"
  using decode_encode [of 4000000001 3486784400] by simp

text \<open>
  Claim C5, as the code has it. \<open>encode(123456789, 1000)\<close> followed by \<open>decode\<close> returns
  \<open>(123456788, 1000)\<close>: only bit 0 of the rolling code is cleared.
\<close>

theorem decode_encode_golden:
  "and_then (encode 123456789 1000) decode = Inr (123456789 AND 0xfffffffe, 1000) \<and>
   (123456789::int) AND 0xfffffffe = 123456788"
  using decode_encode_example by simp

text \<open>The value \<open>(123456784, 1000)\<close> of claim C5 is not what is returned.\<close>

theorem decode_encode_golden_counterexample:
  "and_then (encode 123456789 1000) decode \<noteq> Inr (123456784, 1000)"
  using decode_encode_example by simp

lemma decode_41_zeros: "decode (replicate 41 0) = Inr (0, 0)"
  by code_simp

lemma decode_40_threes: "decode (replicate 40 3) = Inr (891878361, 0)"
  by code_simp

lemma rolling_sum_negative: "rolling_sum (- 1 # replicate 39 0) = - 1162261467"
  by code_simp

lemma rolling_sum_threes: "rolling_sum (replicate 41 3) = 5230176600"
  by code_simp

text \<open>
  Claim C4, as the code has it. \<open>decode\<close> checks neither the length nor the digits of
  its input. It reads the entries 0 to 39: an input of fewer than 40 entries fails with
  the IndexError of the first missing entry, and an input of 40 entries or more gives
  what its first 40 entries give. Then it fails in one case only, when the base-3 number
  made of the entries 0, 2, ..., 38 is negative, with the ValueError of \<open>int\<close>; in every
  other case it returns a pair of codes.
\<close>

theorem decode_failures:
  "(length code < 40 \<longrightarrow> decode code = Inl IndexError) \<and>
   (40 \<le> length code \<longrightarrow> decode code = decode (take 40 code)) \<and>
   (40 \<le> length code \<and> rolling_sum code < 0 \<longrightarrow> decode code = Inl invalid_literal) \<and>
   (40 \<le> length code \<and> 0 \<le> rolling_sum code \<longrightarrow>
      (\<exists>rolling fixed. decode code = Inr (rolling, fixed)))"
proof -
  have a: "decode code = Inl invalid_literal" if l: "40 \<le> length code" and n: "rolling_sum code < 0"
  proof -
    have "2 * 20 \<le> length code" using l by simp
    from dec_state_rolling [OF this]
    obtain f a where "dec_state code 20 = Inr (rolling_sum code, f, a)"
      unfolding rolling_sum_def by blast
    then show ?thesis
      using py_int2_format_neg [OF n] by (simp add: decode_dec_state)
  qed
  have b: "\<exists>rolling fixed. decode code = Inr (rolling, fixed)"
    if l: "40 \<le> length code" and n: "0 \<le> rolling_sum code"
  proof -
    have "2 * 20 \<le> length code" using l by simp
    from dec_state_rolling [OF this]
    obtain f a where st: "dec_state code 20 = Inr (rolling_sum code, f, a)"
      unfolding rolling_sum_def by blast
    obtain v where "py_int2 (rev (format_b 32 (rolling_sum code))) = Inr v"
      using py_int2_format_nonneg [OF n] by blast
    then show ?thesis using st by (simp add: decode_dec_state)
  qed
  show ?thesis
    using decode_short [of code] decode_take_40 [of code] a b by auto
qed

theorem decode_failures_witness:
  "length (replicate 39 (0::int)) < 40 \<and> decode (replicate 39 0) = Inl IndexError \<and>
   40 \<le> length (- 1 # replicate 39 (0::int)) \<and> rolling_sum (- 1 # replicate 39 0) < 0 \<and>
   decode (- 1 # replicate 39 0) = Inl invalid_literal \<and>
   40 \<le> length (replicate 41 (3::int)) \<and> 0 \<le> rolling_sum (replicate 41 3) \<and>
   decode (replicate 41 3) = decode (take 40 (replicate 41 3)) \<and>
   (\<exists>rolling fixed. decode (replicate 41 3) = Inr (rolling, fixed))"
proof -
  have h1: "length (replicate 39 (0::int)) < 40" by simp
  have h2: "40 \<le> length (- 1 # replicate 39 (0::int))" by simp
  have h3: "rolling_sum (- 1 # replicate 39 0) < 0" by (simp add: rolling_sum_negative)
  have h4: "40 \<le> length (replicate 41 (3::int))" by simp
  have h5: "0 \<le> rolling_sum (replicate 41 3)" by (simp add: rolling_sum_threes)
  from decode_failures [of "replicate 39 0"] decode_failures [of "- 1 # replicate 39 0"]
    decode_failures [of "replicate 41 3"] h1 h2 h3 h4 h5
  show ?thesis by blast
qed

text \<open>
  Claim C4 as stated fails: an input of 41 entries is decoded, and so is an input of
  40 entries that are all 3.
\<close>

theorem decode_rejects_counterexample:
  "length (replicate 41 (0::int)) \<noteq> 40 \<and> decode (replicate 41 0) = Inr (0, 0) \<and>
   length (replicate 40 (3::int)) = 40 \<and> 3 \<in> set (replicate 40 (3::int)) \<and>
   decode (replicate 40 3) = Inr (891878361, 0)"
  using decode_41_zeros decode_40_threes by simp

text \<open>
  Claim C10. \<open>decode\<close> reads the first 40 entries of its input only: on a list of at
  least 40 entries it returns what it returns on \<open>code[:40]\<close>, and when these 40 entries
  are ternary digits it returns a pair of codes, however long the list is.
\<close>

theorem decode_first_40:
  "40 \<le> length code \<Longrightarrow>
   decode code = decode (take 40 code) \<and>
   (list_all is_trit (take 40 code) \<longrightarrow> (\<exists>rolling fixed. decode code = Inr (rolling, fixed)))"
  using decode_take_40 [of code] decode_accepts [of code] by simp

theorem decode_first_40_witness:
  "40 \<le> length (replicate 41 (1::int)) \<and>
   decode (replicate 41 1) = decode (take 40 (replicate 41 1)) \<and>
   list_all is_trit (take 40 (replicate 41 1)) \<and>
   (\<exists>rolling fixed. decode (replicate 41 1) = Inr (rolling, fixed))"
proof -
  have l: "40 \<le> length (replicate 41 (1::int))" by simp
  have t: "list_all is_trit (take 40 (replicate 41 (1::int)))"
    by (simp add: is_trit_def list_all_iff)
  from decode_first_40 [OF l] l t show ?thesis by blast
qed

section \<open>Security+ 2.0: failures\<close>

text \<open>
  Claim C9. For every argument that is not a bytes object, \<open>decode_wireline\<close> raises
  the ValueError ``Input must be bytes'', whatever the length and the contents of the
  argument: the test comes before the tests of the length and of the header.
\<close>

theorem decode_wireline_not_bytes:
  "\<not> isinstance_bytes obj \<Longrightarrow> decode_wireline obj = Inl (ValueError ''Input must be bytes'')"
  by (cases obj) (simp_all add: isinstance_bytes_def decode_wireline_def)

theorem decode_wireline_not_bytes_witness:
  "\<not> isinstance_bytes (PyByteArray (replicate 19 0)) \<and>
   decode_wireline (PyByteArray (replicate 19 0)) = Inl (ValueError ''Input must be bytes'') \<and>
   \<not> isinstance_bytes (PyList []) \<and>
   decode_wireline (PyList []) = Inl (ValueError ''Input must be bytes'')"
  using decode_wireline_not_bytes [of "PyByteArray (replicate 19 0)"]
    decode_wireline_not_bytes [of "PyList []"]
  by (simp add: isinstance_bytes_def)




text \<open>
  Claim C7, as the code has it. For an indicator of 8 entries whose first or last four
  are \<open>0, 0, 1, 1\<close>, \<open>_v2_unscramble\<close> raises the ValueError ``Illegal value for ternary
  bit'' and \<open>_v2_scramble\<close>, which does not catch it, the KeyError of the table lookup.
\<close>

theorem illegal_indicator:
  assumes "length indicator = 8"
    and "take 4 indicator = [0, 0, 1, 1] \<or> drop 4 indicator = [0, 0, 1, 1]"
  shows "v2_unscramble indicator payload = Inl (ValueError ''Illegal value for ternary bit'') \<and>
         v2_scramble indicator parts = Inl KeyError"
  using v2_tables_illegal [OF assms] by (simp add: v2_unscramble_def v2_scramble_def)

theorem illegal_indicator_witness:
  "length [0, 0, 1, 1, 0, 0, 0, 0 :: int] = 8 \<and>
   take 4 [0, 0, 1, 1, 0, 0, 0, 0 :: int] = [0, 0, 1, 1] \<and>
   v2_unscramble [0, 0, 1, 1, 0, 0, 0, 0] (replicate 30 0) =
     Inl (ValueError ''Illegal value for ternary bit'') \<and>
   v2_scramble [0, 0, 1, 1, 0, 0, 0, 0] [replicate 10 0, replicate 10 0, replicate 10 0] = Inl KeyError \<and>
   length [0, 0, 0, 0, 0, 0, 1, 1 :: int] = 8 \<and>
   drop 4 [0, 0, 0, 0, 0, 0, 1, 1 :: int] = [0, 0, 1, 1] \<and>
   v2_unscramble [0, 0, 0, 0, 0, 0, 1, 1] (replicate 30 0) =
     Inl (ValueError ''Illegal value for ternary bit'') \<and>
   v2_scramble [0, 0, 0, 0, 0, 0, 1, 1] [replicate 10 0, replicate 10 0, replicate 10 0] = Inl KeyError"
  using illegal_indicator [of "[0, 0, 1, 1, 0, 0, 0, 0]" "replicate 30 0"
      "[replicate 10 0, replicate 10 0, replicate 10 0]"]
    illegal_indicator [of "[0, 0, 0, 0, 0, 0, 1, 1]" "replicate 30 0"
      "[replicate 10 0, replicate 10 0, replicate 10 0]"]
  by simp

text \<open>
  Claim C7 as stated fails: the error that \<open>_v2_unscramble\<close> raises for the selector
  \<open>0b0011\<close> is the error that \<open>_decode_v2_half_parts\<close> raises for a ternary digit 3 (here
  with the legal indicator of eight zeros, which unscrambles thirty zeros to a third
  part of ones): the two failures are one kind of error, with one message.
\<close>

theorem illegal_indicator_counterexample:
  "v2_unscramble [0, 0, 1, 1, 0, 0, 0, 0] (replicate 30 0) =
     Inl (ValueError ''Illegal value for ternary bit'') \<and>
   v2_unscramble [0, 0, 0, 0, 0, 0, 0, 0] (replicate 30 0) =
     Inr [replicate 10 1, replicate 10 0, replicate 10 1] \<and>
   decode_v2_half_parts 0 [0, 0, 0, 0, 0, 0, 0, 0] (replicate 30 0) =
     Inl (ValueError ''Illegal value for ternary bit'')"
  using unscramble_0011 unscramble_0000 decode_half_parts_digit_3 by simp

text \<open>
  Claim C3. For every indicator whose two selectors are among the nine legal keys,
  \<open>_v2_unscramble\<close> undoes \<open>_v2_scramble\<close> on every triple of parts of one length (10
  for packet type 0, 18 for packet type 1, and any other), and \<open>_v2_scramble\<close> undoes
  \<open>_v2_unscramble\<close> on every payload whose length is a multiple of 3.
\<close>

theorem scramble_bijection:
  assumes "selector indicator 0 = Inr ko" and "ko \<in> set legal_keys"
    and "selector indicator 4 = Inr ki" and "ki \<in> set legal_keys"
  shows "(length p0 = length p1 \<and> length p1 = length p2 \<longrightarrow>
          and_then (v2_scramble indicator [p0, p1, p2]) (v2_unscramble indicator) = Inr [p0, p1, p2]) \<and>
         (length payload mod 3 = 0 \<longrightarrow>
          and_then (v2_unscramble indicator payload) (v2_scramble indicator) = Inr payload)"
proof -
  obtain order i0 i1 i2 where t: "v2_tables indicator = Inr (order, [i0, i1, i2])"
    and o: "order \<in> set permutations3"
    using v2_tables_legal [OF assms] by blast
  show ?thesis
    using unscramble_scramble [OF t o, of p0 p1 p2] scramble_unscramble [OF t o, of payload] by simp
qed

theorem scramble_bijection_witness:
  "selector [0, 0, 0, 1, 1, 0, 0, 0] 0 = Inr 1 \<and> 1 \<in> set legal_keys \<and>
   selector [0, 0, 0, 1, 1, 0, 0, 0] 4 = Inr 8 \<and> 8 \<in> set legal_keys \<and>
   length (replicate 18 (0::int)) = length (replicate 18 (1::int)) \<and>
   length (replicate 30 (1::int)) mod 3 = 0 \<and>
   and_then (v2_scramble [0, 0, 0, 1, 1, 0, 0, 0] [replicate 18 0, replicate 18 1, replicate 18 0])
     (v2_unscramble [0, 0, 0, 1, 1, 0, 0, 0]) = Inr [replicate 18 0, replicate 18 1, replicate 18 0] \<and>
   and_then (v2_unscramble [0, 0, 0, 1, 1, 0, 0, 0] (replicate 30 1))
     (v2_scramble [0, 0, 0, 1, 1, 0, 0, 0]) = Inr (replicate 30 1)"
proof -
  have s: "selector [0, 0, 0, 1, 1, 0, 0, 0] 0 = Inr 1" "selector [0, 0, 0, 1, 1, 0, 0, 0] 4 = Inr 8"
    by (simp_all add: selector_def getitem_def)
  have k: "(1::int) \<in> set legal_keys" "(8::int) \<in> set legal_keys"
    by (simp_all add: legal_keys_def)
  from scramble_bijection [OF s(1) k(1) s(2) k(2), of "replicate 18 0" "replicate 18 1"
      "replicate 18 0" "replicate 30 1"] s k
  show ?thesis by simp
qed

section \<open>Security+ 2.0: the round trip and the Manchester framing\<close>

lemma manchester_is_expansion: "manchester code = spec_manchester code"
  by (induction code rule: rev_induct) (simp_all add: manchester_def spec_manchester_def)

lemma encode_v2_valid:
  assumes "valid_v2 rolling fixed data"
  shows "\<exists>code. encode_v2 rolling fixed data = Inr code \<and>
           length code = (if data = None then 80 else 128) \<and> list_all is_bit code \<and>
           decode_v2 code = Inr (rolling, fixed, data)"
proof (cases data)
  case None
  then show ?thesis
    using assms decode_encode_v2_None [of rolling fixed] by (simp add: valid_v2_def)
next
  case (Some d)
  then show ?thesis
    using assms decode_encode_v2_Some [of rolling fixed d] by (simp add: valid_v2_def)
qed

text \<open>
  Claim C1. For every rolling code from 0 to below \<open>2^28\<close>, fixed code from 0 to below
  \<open>2^40\<close> and data that is absent or from 0 to below \<open>2^32\<close> (all three are unsigned
  integers), \<open>encode_v2\<close> succeeds and \<open>decode_v2\<close> of its result returns the three values;
  when the data is present, \<open>encode_wireline\<close> succeeds and \<open>decode_wireline\<close> of its
  19 bytes returns them as well.
\<close>

theorem v2_round_trip:
  assumes "valid_v2 rolling fixed data"
  shows "and_then (encode_v2 rolling fixed data) decode_v2 = Inr (rolling, fixed, data) \<and>
         (\<forall>d. data = Some d \<longrightarrow>
            and_then (encode_wireline rolling fixed data) (\<lambda>packet. decode_wireline (PyBytes packet)) =
              Inr (rolling, fixed, d))"
proof -
  obtain code where "encode_v2 rolling fixed data = Inr code"
    "decode_v2 code = Inr (rolling, fixed, data)"
    using encode_v2_valid [OF assms] by blast
  then have a: "and_then (encode_v2 rolling fixed data) decode_v2 = Inr (rolling, fixed, data)"
    by simp
  have "and_then (encode_wireline rolling fixed data) (\<lambda>packet. decode_wireline (PyBytes packet)) =
      Inr (rolling, fixed, d)" if "data = Some d" for d
  proof -
    have "0 \<le> rolling" "rolling < 2 ^ 28" "0 \<le> fixed" "fixed < 2 ^ 40" "0 \<le> d" "d < 2 ^ 32"
      using assms that by (simp_all add: valid_v2_def)
    then obtain packet where "encode_wireline rolling fixed (Some d) = Inr packet"
      "decode_wireline (PyBytes packet) = Inr (rolling, fixed, d)"
      using decode_encode_wireline [of rolling fixed d] by blast
    then show ?thesis using that by simp
  qed
  with a show ?thesis by blast
qed

theorem v2_round_trip_witness:
  "valid_v2 123456789 987654321 (Some 12345678) \<and>
   and_then (encode_v2 123456789 987654321 (Some 12345678)) decode_v2 =
     Inr (123456789, 987654321, Some 12345678) \<and>
   and_then (encode_wireline 123456789 987654321 (Some 12345678))
     (\<lambda>packet. decode_wireline (PyBytes packet)) = Inr (123456789, 987654321, 12345678) \<and>
   valid_v2 268435455 0 None \<and>
   and_then (encode_v2 268435455 0 None) decode_v2 = Inr (268435455, 0, None)"
proof -
  have v: "valid_v2 123456789 987654321 (Some 12345678)" "valid_v2 268435455 0 None"
    by (simp_all add: valid_v2_def)
  from v2_round_trip [OF v(1)] v2_round_trip [OF v(2)] v show ?thesis by simp
qed

text \<open>
  Claim C8. For valid arguments \<open>encode_v2_manchester\<close> returns the Manchester expansion
  (\<open>0\<close> as \<open>1, 0\<close>, \<open>1\<close> as \<open>0, 1\<close>) of the preamble of 20 bits (sixteen zeros, then four
  ones), the marker \<open>0, 0\<close> and the first half of the 80 or 128 bits that \<open>encode_v2\<close>
  returns, then 33 zeros, then the expansion of the preamble, the marker \<open>0, 1\<close> and the
  second half, then 33 zeros again.
\<close>

theorem encode_v2_manchester_frames:
  assumes "valid_v2 rolling fixed data"
  shows "length ([0, 0, 0, 0, 0, 0, 0, 0, 0, 0, 0, 0, 0, 0, 0, 0, 1, 1, 1, 1] :: int list) = 20 \<and>
         (\<exists>code. encode_v2 rolling fixed data = Inr code \<and>
           length code = (if data = None then 80 else 128) \<and> list_all is_bit code \<and>
           encode_v2_manchester rolling fixed data =
             Inr (spec_manchester
                    (([0, 0, 0, 0, 0, 0, 0, 0, 0, 0, 0, 0, 0, 0, 0, 0, 1, 1, 1, 1] :: int list) @
                     [0, 0] @ take (length code div 2) code) @
                  replicate 33 0 @
                  spec_manchester
                    (([0, 0, 0, 0, 0, 0, 0, 0, 0, 0, 0, 0, 0, 0, 0, 0, 1, 1, 1, 1] :: int list) @
                     [0, 1] @ drop (length code div 2) code) @
                  replicate 33 0))"
proof -
  obtain code where c: "encode_v2 rolling fixed data = Inr code"
    "length code = (if data = None then 80 else 128)" "list_all is_bit code"
    using encode_v2_valid [OF assms] by blast
  have "encode_v2_manchester rolling fixed data =
      Inr (spec_manchester
             (([0, 0, 0, 0, 0, 0, 0, 0, 0, 0, 0, 0, 0, 0, 0, 0, 1, 1, 1, 1] :: int list) @
              [0, 0] @ take (length code div 2) code) @
           replicate 33 0 @
           spec_manchester
             (([0, 0, 0, 0, 0, 0, 0, 0, 0, 0, 0, 0, 0, 0, 0, 0, 1, 1, 1, 1] :: int list) @
              [0, 1] @ drop (length code div 2) code) @
           replicate 33 0)"
    unfolding encode_v2_manchester_def Let_def c(1) preamble_def
    by (simp add: manchester_is_expansion)
  with c show ?thesis by auto
qed

theorem encode_v2_manchester_frames_witness:
  "valid_v2 5 7 None \<and> length ([0, 0, 0, 0, 0, 0, 0, 0, 0, 0, 0, 0, 0, 0, 0, 0, 1, 1, 1, 1] :: int list) = 20 \<and>
   (\<exists>code. encode_v2 5 7 None = Inr code \<and> length code = 80 \<and> list_all is_bit code \<and>
      encode_v2_manchester 5 7 None =
        Inr (spec_manchester
               (([0, 0, 0, 0, 0, 0, 0, 0, 0, 0, 0, 0, 0, 0, 0, 0, 1, 1, 1, 1] :: int list) @
                [0, 0] @ take (length code div 2) code) @
             replicate 33 0 @
             spec_manchester
               (([0, 0, 0, 0, 0, 0, 0, 0, 0, 0, 0, 0, 0, 0, 0, 0, 1, 1, 1, 1] :: int list) @
                [0, 1] @ drop (length code div 2) code) @
             replicate 33 0))"
proof -
  have v: "valid_v2 5 7 None" by (simp add: valid_v2_def)
  from encode_v2_manchester_frames [OF v] v show ?thesis by simp
qed


end
